theory Spec2Isabelle
  imports Main
begin

section \<open>Configuration constants\<close>

text \<open>
  The constants at the head of \<^verbatim>\<open>src/App.tsx\<close>. Slot indices and hours are JavaScript
  numbers holding integers; they are modelled as \<^typ>\<open>int\<close>. Row indices and event
  indices are array indices and are modelled as \<^typ>\<open>nat\<close>.
\<close>

definition ROWS :: nat where
  "ROWS = 3"

definition START_HOUR :: int where
  "START_HOUR = 9"

definition END_HOUR :: int where
  "END_HOUR = 20"

definition SLOTS_PER_HOUR :: int where
  "SLOTS_PER_HOUR = 4"

definition TOTAL_SLOTS :: int where
  "TOTAL_SLOTS = (END_HOUR - START_HOUR) * SLOTS_PER_HOUR"

section \<open>Data model\<close>

text \<open>
  \<^verbatim>\<open>type EventBlock = { start: number; end: number; title: string }\<close>. The field
  \<^verbatim>\<open>end\<close> is written \<open>end'\<close>, since \<^verbatim>\<open>end\<close> is a keyword of the theory language.
  Titles are strings over 8-bit characters (code points below 256). At run time an
  event object can lack its title: \<^verbatim>\<open>applyTempUpdate\<close> builds \<^verbatim>\<open>{ start, end }\<close> when
  it is given an index at which the row holds nothing. Such an object has the title
  \<open>None\<close>.
\<close>

record EventBlock =
  start :: int
  end' :: int
  title :: "string option"

text \<open>
  A row is a JavaScript array of events. Writing past its end leaves holes between
  the old end and the new element; a place of a row is \<open>Some\<close> event or \<open>None\<close>, a
  hole.
\<close>

datatype DragMode = ModeNone | ModeCreate | ModeMove | ModeResizeLeft | ModeResizeRight

record DragState =
  mode :: DragMode
  row :: "nat option"
  eventIndex :: "nat option"
  anchorSlot :: "int option"
  initialStart :: "int option"
  initialEnd :: "int option"

text \<open>
  The React state of \<^verbatim>\<open>App\<close> that the scheduling engine reads and writes: the rows
  of events, the selection state of the create gesture and the drag state of the
  move and resize gestures. (The status line and the save timer are presentation.)
\<close>

record AppState =
  events :: "EventBlock option list list"
  isSelecting :: bool
  selectRow :: "nat option"
  selectStart :: "int option"
  selectCurrent :: "int option"
  drag :: DragState

text \<open>
  Where the source throws (reading a property of \<^verbatim>\<open>undefined\<close>) the model returns
  \<open>Inl TypeError\<close>. \<open>Inl Untyped\<close> stands in the one place where a handler would
  store parsed rows that are no rows of events; \<^verbatim>\<open>validateRows\<close> has accepted the
  rows there, so that place is never reached (lemmas \<open>handleManualLoad_total\<close> and
  \<open>handleImportFile_total\<close> below).
\<close>

datatype error = TypeError | Untyped

definition noDrag :: DragState where
  "noDrag = \<lparr>mode = ModeNone, row = None, eventIndex = None, anchorSlot = None,
              initialStart = None, initialEnd = None\<rparr>"

definition initialState :: AppState where
  "initialState = \<lparr>events = replicate ROWS [], isSelecting = False, selectRow = None,
                    selectStart = None, selectCurrent = None, drag = noDrag\<rparr>"

section \<open>Values read from storage\<close>

text \<open>
  What \<^verbatim>\<open>JSON.parse\<close> can deliver, together with \<^verbatim>\<open>undefined\<close> (the value of a
  missing property). A number is either an integer (\<^verbatim>\<open>Number.isInteger\<close> holds) or
  not (a fraction, or a literal that overflowed to an infinity); the validation
  never looks further into a number that is not an integer.
\<close>

datatype js =
    JUndefined
  | JNull
  | JBool bool
  | JInt int
  | JNonInt
  | JStr string
  | JArr "js list"
  | JObj "(string \<times> js) list"

text \<open>
  Property read \<^verbatim>\<open>v.key\<close> on a value that is neither \<^verbatim>\<open>null\<close> nor
  \<^verbatim>\<open>undefined\<close> (callers check that first). Only the keys \<^verbatim>\<open>start\<close>,
  \<^verbatim>\<open>end\<close>, \<^verbatim>\<open>title\<close>, \<^verbatim>\<open>version\<close> and \<^verbatim>\<open>rows\<close> are read this way;
  numbers, strings, booleans and arrays have none of them. An object lists its own
  properties, each key once.
\<close>

fun getProp :: "js \<Rightarrow> string \<Rightarrow> js" where
  "getProp (JObj kvs) k = (case map_of kvs k of Some v \<Rightarrow> v | None \<Rightarrow> JUndefined)"
| "getProp _ k = JUndefined"

fun nullish :: "js \<Rightarrow> bool" where
  "nullish JUndefined = True"
| "nullish JNull = True"
| "nullish _ = False"

fun truthy :: "js \<Rightarrow> bool" where
  "truthy JUndefined = False"
| "truthy JNull = False"
| "truthy (JBool b) = b"
| "truthy (JInt n) = (n \<noteq> 0)"
| "truthy JNonInt = True"
| "truthy (JStr s) = (s \<noteq> [])"
| "truthy (JArr xs) = True"
| "truthy (JObj kvs) = True"

fun isNumber :: "js \<Rightarrow> bool" where
  "isNumber (JInt n) = True"
| "isNumber JNonInt = True"
| "isNumber _ = False"

fun isString :: "js \<Rightarrow> bool" where
  "isString (JStr s) = True"
| "isString _ = False"

section \<open>Validation helpers for persistence\<close>

text \<open>
  \<^verbatim>\<open>isValidEventBlock\<close>: the \<^verbatim>\<open>typeof\<close> checks, then \<^verbatim>\<open>Number.isInteger\<close>
  (the case distinction on \<open>JInt\<close>), then the bounds. Reading \<^verbatim>\<open>ev.start\<close> of
  \<^verbatim>\<open>null\<close> throws.
\<close>

definition isValidEventBlock :: "js \<Rightarrow> error + bool" where
  "isValidEventBlock ev =
     (if nullish ev then Inl TypeError
      else if \<not> (isNumber (getProp ev ''start'') \<and> isNumber (getProp ev ''end'')
                  \<and> isString (getProp ev ''title'')) then Inr False
      else (case (getProp ev ''start'', getProp ev ''end'') of
              (JInt s, JInt e) \<Rightarrow>
                (if s < 0 \<or> e < 0 \<or> s > e then Inr False
                 else if e > TOTAL_SLOTS - 1 then Inr False
                 else Inr True)
            | _ \<Rightarrow> Inr False))"

text \<open>
  The first loop nest of \<^verbatim>\<open>validateRows\<close>: rows in order, events in order, leaving
  at the first row that is not an array, the first invalid event or the first throw.
\<close>

fun checkEvents :: "js list \<Rightarrow> error + bool" where
  "checkEvents [] = Inr True"
| "checkEvents (ev # evs) =
     (case isValidEventBlock ev of
        Inl err \<Rightarrow> Inl err
      | Inr ok \<Rightarrow> (if ok then checkEvents evs else Inr False))"

fun checkRows :: "js list \<Rightarrow> error + bool" where
  "checkRows [] = Inr True"
| "checkRows (JArr evs # rs) =
     (case checkEvents evs of
        Inl err \<Rightarrow> Inl err
      | Inr ok \<Rightarrow> (if ok then checkRows rs else Inr False))"
| "checkRows (_ # rs) = Inr False"

text \<open>
  \<^verbatim>\<open>a.start\<close> and \<^verbatim>\<open>a.end\<close> as numbers, and the elements of a row, in the second
  half of \<^verbatim>\<open>validateRows\<close>. That half runs only after every row was seen to be an
  array and every event passed \<^verbatim>\<open>isValidEventBlock\<close>, so the default case of
  each function is never reached.
\<close>

definition startOf :: "js \<Rightarrow> int" where
  "startOf ev = (case getProp ev ''start'' of JInt n \<Rightarrow> n | _ \<Rightarrow> 0)"

definition endOf :: "js \<Rightarrow> int" where
  "endOf ev = (case getProp ev ''end'' of JInt n \<Rightarrow> n | _ \<Rightarrow> 0)"

fun elems :: "js \<Rightarrow> js list" where
  "elems (JArr xs) = xs"
| "elems _ = []"

text \<open>
  The loop \<^verbatim>\<open>for (let i = 1; i < r.length; i++)\<close> over a sorted row, comparing each
  event with its predecessor.
\<close>

fun consecutiveOk :: "js list \<Rightarrow> bool" where
  "consecutiveOk (prev # cur # rest) =
     (if endOf prev \<ge> startOf cur
      then (if endOf prev \<noteq> startOf cur - 1 then False else consecutiveOk (cur # rest))
      else consecutiveOk (cur # rest))"
| "consecutiveOk _ = True"

text \<open>
  \<^verbatim>\<open>validateRows\<close>. \<^verbatim>\<open>[...r].sort((a, b) => a.start - b.start)\<close> is a stable sort
  by \<^verbatim>\<open>start\<close>, as \<^const>\<open>sort_key\<close> is.
\<close>

definition validateRows :: "js \<Rightarrow> error + bool" where
  "validateRows rows =
     (case rows of
        JArr rs \<Rightarrow>
          (if length rs \<noteq> ROWS then Inr False
           else (case checkRows rs of
                   Inl err \<Rightarrow> Inl err
                 | Inr ok \<Rightarrow>
                     (if ok
                      then Inr (list_all (\<lambda>r. consecutiveOk (sort_key startOf (elems r))) rs)
                      else Inr False)))
      | _ \<Rightarrow> Inr False)"

section \<open>Saving and loading\<close>

text \<open>
  \<^verbatim>\<open>type ScheduleV1 = { version: 1; savedAt: string; rows: EventBlock[][] }\<close> and
  \<^verbatim>\<open>makeSchedule\<close>; the clock reading \<^verbatim>\<open>new Date().toISOString()\<close> is a parameter.
\<close>

record ScheduleV1 =
  version :: int
  savedAt :: string
  rows :: "EventBlock option list list"

definition makeSchedule :: "string \<Rightarrow> EventBlock option list list \<Rightarrow> ScheduleV1" where
  "makeSchedule now rws = \<lparr>version = 1, savedAt = now, rows = rws\<rparr>"

text \<open>
  The value that \<^verbatim>\<open>JSON.parse\<close> gives back for the text that \<^verbatim>\<open>JSON.stringify\<close>
  writes for a schedule: objects with the fields of the types, in their order. A
  missing title is left out of the object, and a hole of an array is written as
  \<^verbatim>\<open>null\<close>.
\<close>

definition jsEvent :: "EventBlock \<Rightarrow> js" where
  "jsEvent ev = JObj ([(''start'', JInt (start ev)), (''end'', JInt (end' ev))] @
                      (case title ev of None \<Rightarrow> [] | Some t \<Rightarrow> [(''title'', JStr t)]))"

definition jsEntry :: "EventBlock option \<Rightarrow> js" where
  "jsEntry entry = (case entry of None \<Rightarrow> JNull | Some ev \<Rightarrow> jsEvent ev)"

definition jsRows :: "EventBlock option list list \<Rightarrow> js" where
  "jsRows rws = JArr (map (\<lambda>r. JArr (map jsEntry r)) rws)"

definition jsSchedule :: "ScheduleV1 \<Rightarrow> js" where
  "jsSchedule sched = JObj [(''version'', JInt (version sched)),
                            (''savedAt'', JStr (savedAt sched)),
                            (''rows'', jsRows (rows sched))]"

text \<open>
  What \<^verbatim>\<open>localStorage.getItem\<close> followed by \<^verbatim>\<open>JSON.parse\<close> delivers: nothing (no
  item, an empty string, or the store threw), a text that does not parse, or a
  parsed value. File import reads the same three ways.
\<close>

datatype stored = Absent | Malformed | Parsed js

text \<open>\<^verbatim>\<open>saveToStorage\<close>, when the store accepts the write: what a later read finds.\<close>

definition saveToStorage :: "string \<Rightarrow> EventBlock option list list \<Rightarrow> stored" where
  "saveToStorage now rws = Parsed (jsSchedule (makeSchedule now rws))"

definition loadFromStorage :: "stored \<Rightarrow> js option" where
  "loadFromStorage raw =
     (case raw of
        Absent \<Rightarrow> None
      | Malformed \<Rightarrow> None
      | Parsed parsed \<Rightarrow>
          (if \<not> truthy parsed then None
           else if getProp parsed ''version'' \<noteq> JInt 1 then None
           else (case validateRows (getProp parsed ''rows'') of
                   Inl err \<Rightarrow> None
                 | Inr ok \<Rightarrow> (if ok then Some parsed else None))))"

text \<open>
  \<^verbatim>\<open>setEvents(stored.rows)\<close> takes the parsed rows as \<^verbatim>\<open>EventBlock[][]\<close>. The typed
  view of a parsed value keeps the three fields of an event; it exists for every
  value that passed \<^verbatim>\<open>validateRows\<close>, and it has neither holes nor missing titles.
\<close>

definition asEventBlock :: "js \<Rightarrow> EventBlock option" where
  "asEventBlock ev =
     (case (getProp ev ''start'', getProp ev ''end'', getProp ev ''title'') of
        (JInt s, JInt e, JStr t) \<Rightarrow> Some \<lparr>start = s, end' = e, title = Some t\<rparr>
      | _ \<Rightarrow> None)"

fun allSome :: "'a option list \<Rightarrow> 'a list option" where
  "allSome [] = Some []"
| "allSome (None # xs) = None"
| "allSome (Some x # xs) = (case allSome xs of None \<Rightarrow> None | Some ys \<Rightarrow> Some (x # ys))"

fun asRow :: "js \<Rightarrow> EventBlock option list option" where
  "asRow (JArr evs) = map_option (map Some) (allSome (map asEventBlock evs))"
| "asRow _ = None"

fun asRows :: "js \<Rightarrow> EventBlock option list list option" where
  "asRows (JArr rs) = allSome (map asRow rs)"
| "asRows _ = None"

section \<open>Grid helpers\<close>

text \<open>
  \<^verbatim>\<open>Array.prototype.findIndex\<close>, with \<open>None\<close> for \<^verbatim>\<open>-1\<close>. It calls its callback
  on every place from the first on, holes included, until the callback answers true;
  a callback that throws ends the search.
\<close>

fun findIndex :: "('a \<Rightarrow> error + bool) \<Rightarrow> 'a list \<Rightarrow> error + nat option" where
  "findIndex P [] = Inr None"
| "findIndex P (x # xs) =
     (case P x of
        Inl err \<Rightarrow> Inl err
      | Inr hit \<Rightarrow>
          (if hit then Inr (Some 0)
           else (case findIndex P xs of
                   Inl err \<Rightarrow> Inl err
                 | Inr found \<Rightarrow> Inr (map_option Suc found))))"

text \<open>
  The callback \<^verbatim>\<open>ev => slotIdx >= ev.start && slotIdx <= ev.end\<close>; on a hole
  \<^verbatim>\<open>ev\<close> is \<^verbatim>\<open>undefined\<close> and \<^verbatim>\<open>ev.start\<close> throws.
\<close>

definition covers :: "int \<Rightarrow> EventBlock option \<Rightarrow> error + bool" where
  "covers slotIdx entry =
     (case entry of
        None \<Rightarrow> Inl TypeError
      | Some ev \<Rightarrow> Inr (slotIdx \<ge> start ev \<and> slotIdx \<le> end' ev))"

text \<open>\<^verbatim>\<open>findEventAt\<close>; \<^verbatim>\<open>events[rowIdx].findIndex\<close> throws when the row does not exist.\<close>

definition findEventAt ::
  "EventBlock option list list \<Rightarrow> nat \<Rightarrow> int \<Rightarrow> error + nat option" where
  "findEventAt evs rowIdx slotIdx =
     (if rowIdx < length evs
      then findIndex (covers slotIdx) (evs ! rowIdx)
      else Inl TypeError)"

definition clamp :: "int \<Rightarrow> int \<Rightarrow> int \<Rightarrow> int" where
  "clamp val mn mx = max mn (min mx val)"

definition rangeOverlaps :: "int \<Rightarrow> int \<Rightarrow> int \<Rightarrow> int \<Rightarrow> bool" where
  "rangeOverlaps aStart aEnd bStart bEnd = (aStart \<le> bEnd \<and> bStart \<le> aEnd)"

section \<open>The collision resolver\<close>

text \<open>
  \<^verbatim>\<open>allowedRangeFor\<close> in its four stages. First the normalisation of the proposal:
  both ends clamped, then swapped when out of order.
\<close>

definition normalized :: "int \<Rightarrow> int \<Rightarrow> int \<times> int" where
  "normalized st en =
     (let s = clamp st 0 (TOTAL_SLOTS - 1);
          e = clamp en 0 (TOTAL_SLOTS - 1)
      in if s > e then (e, s) else (s, e))"

text \<open>
  \<^verbatim>\<open>events[rowIdx].filter((_, i) => i !== excludeIndex)\<close>. \<^verbatim>\<open>filter\<close> passes over
  holes, so the result holds events only.
\<close>

definition othersOf :: "EventBlock option list \<Rightarrow> nat option \<Rightarrow> EventBlock list" where
  "othersOf evs excludeIndex =
     List.map_filter (\<lambda>p. if Some (fst p) \<noteq> excludeIndex then snd p else None)
       (enumerate 0 evs)"

text \<open>The body of the loop \<^verbatim>\<open>for (const o of others)\<close>, acting on \<^verbatim>\<open>s\<close> and \<^verbatim>\<open>e\<close>.\<close>

fun snapTo :: "int \<times> int \<Rightarrow> EventBlock \<Rightarrow> int \<times> int" where
  "snapTo (s, e) ob =
     (if rangeOverlaps s e (start ob) (end' ob)
      then (if e \<ge> start ob \<and> s \<le> start ob then (s, start ob - 1)
            else if s \<le> end' ob \<and> e \<ge> end' ob then (end' ob + 1, e)
            else (s, e))
      else (s, e))"

text \<open>\<^verbatim>\<open>s\<close> and \<^verbatim>\<open>e\<close> when the loop has run over all the others, in their order.\<close>

definition snapped ::
  "EventBlock option list \<Rightarrow> nat option \<Rightarrow> int \<Rightarrow> int \<Rightarrow> int \<times> int" where
  "snapped evs excludeIndex st en = foldl snapTo (normalized st en) (othersOf evs excludeIndex)"

text \<open>The last three statements: clamp both ends again, collapse when out of order.\<close>

fun settled :: "int \<times> int \<Rightarrow> int \<times> int" where
  "settled (s0, e0) =
     (let s = clamp s0 0 (TOTAL_SLOTS - 1);
          e = clamp e0 0 (TOTAL_SLOTS - 1)
      in (if s > e then e else s, e))"

text \<open>The result \<^verbatim>\<open>{ start: s, end: e }\<close> is the pair \<open>(s, e)\<close>.\<close>

definition allowedRangeFor ::
  "EventBlock option list list \<Rightarrow> nat \<Rightarrow> nat option \<Rightarrow> int \<Rightarrow> int \<Rightarrow> error + int \<times> int" where
  "allowedRangeFor evs rowIdx excludeIndex st en =
     (if rowIdx < length evs
      then Inr (settled (snapped (evs ! rowIdx) excludeIndex st en))
      else Inl TypeError)"

section \<open>Pointer handlers\<close>

text \<open>
  Every handler runs on the state its predecessor committed: React re-renders
  between two discrete pointer events, so the \<^verbatim>\<open>events\<close> a handler closes over and
  the \<^verbatim>\<open>prev\<close> its updater receives are the same value.
\<close>

definition onMouseDownCell :: "nat \<Rightarrow> int \<Rightarrow> AppState \<Rightarrow> error + AppState" where
  "onMouseDownCell rowIdx slotIdx st =
     (case findEventAt (events st) rowIdx slotIdx of
        Inl err \<Rightarrow> Inl err
      | Inr (Some evtIndex) \<Rightarrow>
          (case events st ! rowIdx ! evtIndex of
             None \<Rightarrow> Inl TypeError
           | Some evt \<Rightarrow>
               (let m = (if start evt = end' evt then ModeMove
                         else if slotIdx = start evt then ModeResizeLeft
                         else if slotIdx = end' evt then ModeResizeRight
                         else ModeMove)
                in Inr (st\<lparr>drag := \<lparr>mode = m, row = Some rowIdx, eventIndex = Some evtIndex,
                                      anchorSlot = Some slotIdx, initialStart = Some (start evt),
                                      initialEnd = Some (end' evt)\<rparr>\<rparr>)))
      | Inr None \<Rightarrow>
          Inr (st\<lparr>isSelecting := True, selectRow := Some rowIdx,
                  selectStart := Some slotIdx, selectCurrent := Some slotIdx\<rparr>))"

text \<open>
  The assignment \<^verbatim>\<open>evts[eventIdx] = v\<close>: within the array it replaces what is there;
  past the end it lengthens the array, leaving holes up to the new element.
\<close>

definition setAt :: "'a option list \<Rightarrow> nat \<Rightarrow> 'a \<Rightarrow> 'a option list" where
  "setAt xs i v =
     (if i < length xs then xs[i := Some v]
      else xs @ replicate (i - length xs) None @ [Some v])"

text \<open>
  \<^verbatim>\<open>applyTempUpdate\<close>. \<^verbatim>\<open>copy[rowIdx].slice()\<close> throws for a row that does not exist.
  \<^verbatim>\<open>evts[eventIdx]\<close> is \<^verbatim>\<open>undefined\<close> at a hole and past the end of the row, and
  \<^verbatim>\<open>{ ...original, start, end }\<close> is then an object with \<^verbatim>\<open>start\<close> and \<^verbatim>\<open>end\<close> only;
  otherwise it is the original with the two fields replaced.
\<close>

definition applyTempUpdate ::
  "nat \<Rightarrow> nat \<Rightarrow> int \<Rightarrow> int \<Rightarrow> EventBlock option list list
   \<Rightarrow> error + EventBlock option list list" where
  "applyTempUpdate rowIdx eventIdx st en prev =
     (if \<not> rowIdx < length prev then Inl TypeError
      else (let evts = prev ! rowIdx;
                original = (if eventIdx < length evts then evts ! eventIdx else None);
                updated = (case original of
                             None \<Rightarrow> \<lparr>start = st, end' = en, title = None\<rparr>
                           | Some ev \<Rightarrow> ev\<lparr>start := st, end' := en\<rparr>)
            in Inr (prev[rowIdx := setAt evts eventIdx updated])))"

text \<open>The three branches of the drag part of \<^verbatim>\<open>onMouseEnterCell\<close>: the proposal.\<close>

definition moveProposal :: "int \<Rightarrow> int \<Rightarrow> int \<Rightarrow> int \<Rightarrow> int \<times> int" where
  "moveProposal iStart iEnd anchor slotIdx =
     (let len = iEnd - iStart;
          newStart = iStart + (slotIdx - anchor);
          newEnd = newStart + len;
          (newStart, newEnd) = (if newStart < 0 then (0, newEnd - newStart)
                                else (newStart, newEnd));
          (newStart, newEnd) = (if newEnd > TOTAL_SLOTS - 1
                                then (newStart - (newEnd - (TOTAL_SLOTS - 1)), TOTAL_SLOTS - 1)
                                else (newStart, newEnd))
      in (newStart, newEnd))"

definition dragProposal :: "DragMode \<Rightarrow> int \<Rightarrow> int \<Rightarrow> int \<Rightarrow> int \<Rightarrow> (int \<times> int) option" where
  "dragProposal m iStart iEnd anchor slotIdx =
     (if m = ModeMove then Some (moveProposal iStart iEnd anchor slotIdx)
      else if m = ModeResizeLeft then Some (min slotIdx iEnd, iEnd)
      else if m = ModeResizeRight then Some (iStart, max slotIdx iStart)
      else None)"

definition onMouseEnterCell :: "nat \<Rightarrow> int \<Rightarrow> AppState \<Rightarrow> error + AppState" where
  "onMouseEnterCell rowIdx slotIdx st =
     (if isSelecting st \<and> Some rowIdx = selectRow st
      then Inr (st\<lparr>selectCurrent := Some slotIdx\<rparr>)
      else if mode (drag st) \<noteq> ModeNone \<and> row (drag st) = Some rowIdx
      then (case (eventIndex (drag st), initialStart (drag st), initialEnd (drag st),
                  anchorSlot (drag st)) of
              (Some evtIndex, Some iStart, Some iEnd, Some anchor) \<Rightarrow>
                (case dragProposal (mode (drag st)) iStart iEnd anchor slotIdx of
                   None \<Rightarrow> Inr st
                 | Some (newStart, newEnd) \<Rightarrow>
                     (case allowedRangeFor (events st) rowIdx (Some evtIndex) newStart newEnd of
                        Inl err \<Rightarrow> Inl err
                      | Inr (aStart, aEnd) \<Rightarrow>
                          (case applyTempUpdate rowIdx evtIndex aStart aEnd (events st) of
                             Inl err \<Rightarrow> Inl err
                           | Inr evs \<Rightarrow> Inr (st\<lparr>events := evs\<rparr>))))
            | _ \<Rightarrow> Inr st)
      else Inr st)"

text \<open>
  \<^verbatim>\<open>String.prototype.trim\<close> on 8-bit characters: the white space and line
  terminators of JavaScript below code point 256 are tab, line feed, vertical tab,
  form feed, carriage return, space and no-break space.
\<close>

definition isWhiteSpace :: "char \<Rightarrow> bool" where
  "isWhiteSpace c = (c \<in> set [CHR 0x09, CHR 0x0A, CHR 0x0B, CHR 0x0C, CHR 0x0D, CHR 0x20, CHR 0xA0])"

definition trim :: "string \<Rightarrow> string" where
  "trim s = rev (dropWhile isWhiteSpace (rev (dropWhile isWhiteSpace s)))"

text \<open>
  \<^verbatim>\<open>handleMouseUp\<close>. The argument is what \<^verbatim>\<open>window.prompt\<close> answers when it is asked
  (\<open>None\<close> for \<^verbatim>\<open>null\<close>); it is asked only in the create flow. \<^verbatim>\<open>copy[selectRow].push\<close>
  throws for a row that does not exist.
\<close>

definition handleMouseUp :: "string option \<Rightarrow> AppState \<Rightarrow> error + AppState" where
  "handleMouseUp answer st =
     (let cleared = \<lparr>events = events st, isSelecting = False, selectRow = None,
                     selectStart = None, selectCurrent = None, drag = noDrag\<rparr>
      in case (isSelecting st, selectRow st, selectStart st, selectCurrent st) of
           (True, Some sRow, Some sStart, Some sCurrent) \<Rightarrow>
             (case answer of
                None \<Rightarrow> Inr cleared
              | Some ttl \<Rightarrow>
                  (if ttl \<noteq> [] \<and> trim ttl \<noteq> []
                   then (if sRow < length (events st)
                         then Inr (cleared\<lparr>events := (events st)
                                 [sRow := (events st ! sRow) @
                                    [Some \<lparr>start = min sStart sCurrent,
                                            end' = max sStart sCurrent,
                                            title = Some (trim ttl)\<rparr>]]\<rparr>)
                         else Inl TypeError)
                   else Inr cleared))
         | _ \<Rightarrow> Inr cleared)"

section \<open>Direct operations\<close>

text \<open>\<^verbatim>\<open>clearRow\<close>; the argument is the answer of \<^verbatim>\<open>window.confirm\<close>.\<close>

definition clearRow :: "nat \<Rightarrow> bool \<Rightarrow> AppState \<Rightarrow> AppState" where
  "clearRow rowIdx confirmed st =
     (if confirmed
      then st\<lparr>events := map (\<lambda>p. if fst p = rowIdx then [] else snd p) (enumerate 0 (events st))\<rparr>
      else st)"

text \<open>
  \<^verbatim>\<open>removeEvent\<close>; \<^verbatim>\<open>splice(eventIdx, 1)\<close> takes out the place at that index, event
  or hole, and past the end it removes nothing.
\<close>

definition removeEvent :: "nat \<Rightarrow> nat \<Rightarrow> AppState \<Rightarrow> AppState" where
  "removeEvent rowIdx eventIdx st =
     st\<lparr>events := map (\<lambda>p. if fst p \<noteq> rowIdx then snd p
                             else take eventIdx (snd p) @ drop (Suc eventIdx) (snd p))
                     (enumerate 0 (events st))\<rparr>"

definition handleClearAll :: "bool \<Rightarrow> AppState \<Rightarrow> AppState" where
  "handleClearAll confirmed st = (if confirmed then st\<lparr>events := replicate ROWS []\<rparr> else st)"

text \<open>
  \<^verbatim>\<open>handleManualLoad\<close> (the effect that loads on mount does the same to the events):
  \<^verbatim>\<open>loadFromStorage\<close>, \<^verbatim>\<open>validateRows\<close> once more, then \<^verbatim>\<open>setEvents(stored.rows)\<close>.
\<close>

definition handleManualLoad :: "stored \<Rightarrow> AppState \<Rightarrow> error + AppState" where
  "handleManualLoad raw st =
     (case loadFromStorage raw of
        None \<Rightarrow> Inr st
      | Some sched \<Rightarrow>
          (case validateRows (getProp sched ''rows'') of
             Inl err \<Rightarrow> Inl err
           | Inr ok \<Rightarrow>
               (if ok
                then (case asRows (getProp sched ''rows'') of
                        None \<Rightarrow> Inl Untyped
                      | Some rws \<Rightarrow> Inr (st\<lparr>events := rws\<rparr>))
                else Inr st)))"

text \<open>
  \<^verbatim>\<open>handleImportFile\<close>, from the text of the chosen file on: every failure, thrown or
  returned, ends in an alert and leaves the state as it is; the second argument is
  the answer of \<^verbatim>\<open>window.confirm\<close>.
\<close>

definition handleImportFile :: "stored \<Rightarrow> bool \<Rightarrow> AppState \<Rightarrow> error + AppState" where
  "handleImportFile raw confirmed st =
     (case raw of
        Absent \<Rightarrow> Inr st
      | Malformed \<Rightarrow> Inr st
      | Parsed parsed \<Rightarrow>
          (if \<not> truthy parsed then Inr st
           else if getProp parsed ''version'' \<noteq> JInt 1 then Inr st
           else (case validateRows (getProp parsed ''rows'') of
                   Inl err \<Rightarrow> Inr st
                 | Inr ok \<Rightarrow>
                     (if ok \<and> confirmed
                      then (case asRows (getProp parsed ''rows'') of
                              None \<Rightarrow> Inl Untyped
                            | Some rws \<Rightarrow> Inr (st\<lparr>events := rws\<rparr>))
                      else Inr st))))"

section \<open>Runs of user actions\<close>

datatype action =
    MouseDown nat int
  | MouseEnter nat int
  | MouseUp "string option"
  | RemoveEvent nat nat
  | ClearRow nat bool
  | ClearAll bool
  | ManualLoad stored
  | ImportFile stored bool

fun step :: "AppState \<Rightarrow> action \<Rightarrow> error + AppState" where
  "step st (MouseDown r k) = onMouseDownCell r k st"
| "step st (MouseEnter r k) = onMouseEnterCell r k st"
| "step st (MouseUp answer) = handleMouseUp answer st"
| "step st (RemoveEvent r i) = Inr (removeEvent r i st)"
| "step st (ClearRow r c) = Inr (clearRow r c st)"
| "step st (ClearAll c) = Inr (handleClearAll c st)"
| "step st (ManualLoad raw) = handleManualLoad raw st"
| "step st (ImportFile raw c) = handleImportFile raw c st"

fun run :: "AppState \<Rightarrow> action list \<Rightarrow> error + AppState" where
  "run st [] = Inr st"
| "run st (a # as) = (case step st a of Inl err \<Rightarrow> Inl err | Inr st' \<Rightarrow> run st' as)"

text \<open>
  A handler that throws has set no state. \<open>run\<close> stops at the first throw; \<open>carryOn\<close>
  goes on from the state as it was, as the page does after an exception in an event
  handler.
\<close>

fun carryOn :: "AppState \<Rightarrow> action list \<Rightarrow> AppState" where
  "carryOn st [] = st"
| "carryOn st (a # as) = (case step st a of Inl err \<Rightarrow> carryOn st as | Inr st' \<Rightarrow> carryOn st' as)"

section \<open>The invariants of the specification\<close>

text \<open>Two events overlap when their closed slot ranges meet.\<close>

definition overlap :: "EventBlock \<Rightarrow> EventBlock \<Rightarrow> bool" where
  "overlap a b = rangeOverlaps (start a) (end' a) (start b) (end' b)"

text \<open>Bounds of an event: \<open>0 \<le> start \<le> end < TOTAL_SLOTS\<close>.\<close>

definition inBounds :: "EventBlock \<Rightarrow> bool" where
  "inBounds ev = (0 \<le> start ev \<and> start ev \<le> end' ev \<and> end' ev < TOTAL_SLOTS)"

text \<open>The events present in a row: its places without the holes.\<close>

fun present :: "'a option list \<Rightarrow> 'a list" where
  "present [] = []"
| "present (None # xs) = present xs"
| "present (Some x # xs) = x # present xs"

definition allInBounds :: "EventBlock option list list \<Rightarrow> bool" where
  "allInBounds evs = list_all (\<lambda>r. list_all inBounds (present r)) evs"

text \<open>No two events at different places of a row overlap.\<close>

fun rowNoOverlap :: "EventBlock list \<Rightarrow> bool" where
  "rowNoOverlap [] = True"
| "rowNoOverlap (a # rest) = (list_all (\<lambda>b. \<not> overlap a b) rest \<and> rowNoOverlap rest)"

text \<open>
  An event as the specification has it: within bounds, with a title that is not
  empty after trimming.
\<close>

definition properEvent :: "EventBlock option \<Rightarrow> bool" where
  "properEvent entry =
     (case entry of
        None \<Rightarrow> False
      | Some ev \<Rightarrow> inBounds ev \<and> (case title ev of None \<Rightarrow> False | Some t \<Rightarrow> trim t \<noteq> []))"

text \<open>A place of a row that holds an event with a title.\<close>

definition hasTitle :: "EventBlock option \<Rightarrow> bool" where
  "hasTitle entry = (case entry of None \<Rightarrow> False | Some ev \<Rightarrow> title ev \<noteq> None)"

text \<open>
  The Row invariants: as many rows as \<open>ROWS\<close>, every place of a row an event within
  bounds and with a title that is not empty after trimming, no two events of a row
  overlapping.
\<close>

definition rowInvariants :: "EventBlock option list list \<Rightarrow> bool" where
  "rowInvariants rws =
     (length rws = ROWS \<and>
      list_all (\<lambda>r. list_all properEvent r \<and> rowNoOverlap (present r)) rws)"

text \<open>A pointer action names a slot of the grid.\<close>

fun slotInGrid :: "action \<Rightarrow> bool" where
  "slotInGrid (MouseDown r k) = (0 \<le> k \<and> k < TOTAL_SLOTS)"
| "slotInGrid (MouseEnter r k) = (0 \<le> k \<and> k < TOTAL_SLOTS)"
| "slotInGrid _ = True"

section \<open>Predicates used in the statements\<close>

text \<open>A parsed event with the given \<^verbatim>\<open>start\<close> and \<^verbatim>\<open>end\<close>.\<close>

definition holdsInterval :: "js \<Rightarrow> int \<Rightarrow> int \<Rightarrow> bool" where
  "holdsInterval ev s e = (getProp ev ''start'' = JInt s \<and> getProp ev ''end'' = JInt e)"

text \<open>The rows of a parsed payload, each as the list of its elements.\<close>

definition payloadRows :: "js \<Rightarrow> js list list" where
  "payloadRows p = map elems (elems (getProp p ''rows''))"

text \<open>
  A parsed payload is rejected: \<^verbatim>\<open>loadFromStorage\<close> returns \<^verbatim>\<open>null\<close>, and neither
  loading nor importing it (confirmed or not) changes the state.
\<close>

definition rejected :: "js \<Rightarrow> AppState \<Rightarrow> bool" where
  "rejected p st =
     (loadFromStorage (Parsed p) = None
      \<and> handleManualLoad (Parsed p) st = Inr st
      \<and> handleImportFile (Parsed p) True st = Inr st
      \<and> handleImportFile (Parsed p) False st = Inr st)"

text \<open>The slots remembered by the create gesture are slots of the grid.\<close>

fun slotOk :: "int option \<Rightarrow> bool" where
  "slotOk None = True"
| "slotOk (Some k) = (0 \<le> k \<and> k < TOTAL_SLOTS)"

definition selectionInGrid :: "AppState \<Rightarrow> bool" where
  "selectionInGrid st = (slotOk (selectStart st) \<and> slotOk (selectCurrent st))"

text \<open>
  The state has \<open>ROWS\<close> rows without holes, the create gesture remembers one of them,
  and the drag state points at a place that exists.
\<close>

definition wellShaped :: "AppState \<Rightarrow> bool" where
  "wellShaped st =
     (length (events st) = ROWS
      \<and> list_all (list_all (\<lambda>entry. entry \<noteq> None)) (events st)
      \<and> (case selectRow st of None \<Rightarrow> True | Some r \<Rightarrow> r < ROWS)
      \<and> (case (row (drag st), eventIndex (drag st)) of
            (Some r, Some i) \<Rightarrow> r < ROWS \<and> i < length (events st ! r)
          | _ \<Rightarrow> True))"

text \<open>A pointer action on one of the \<open>ROWS\<close> rows of the grid.\<close>

fun pointerOnGrid :: "action \<Rightarrow> bool" where
  "pointerOnGrid (MouseDown r k) = (r < ROWS)"
| "pointerOnGrid (MouseEnter r k) = (r < ROWS)"
| "pointerOnGrid (MouseUp answer) = True"
| "pointerOnGrid _ = False"

section \<open>Basic facts\<close>

lemma TOTAL_SLOTS_eq: "TOTAL_SLOTS = 44"
  by (simp add: TOTAL_SLOTS_def END_HOUR_def START_HOUR_def SLOTS_PER_HOUR_def)

lemmas gesture_defs =
  onMouseDownCell_def onMouseEnterCell_def findEventAt_def covers_def allowedRangeFor_def
  applyTempUpdate_def setAt_def dragProposal_def moveProposal_def snapped_def normalized_def
  othersOf_def clamp_def rangeOverlaps_def initialState_def noDrag_def TOTAL_SLOTS_eq

text \<open>
  \<^const>\<open>findIndex\<close> answers with an index exactly when that index is the first place
  at which the callback answers true and the callback has answered false, without
  throwing, at every place before it.
\<close>

lemma findIndex_Some:
  "findIndex P xs = Inr (Some i)
   \<Longrightarrow> i < length xs \<and> P (xs ! i) = Inr True \<and> (\<forall>j<i. P (xs ! j) = Inr False)"
proof (induction xs arbitrary: i)
  case Nil
  then show ?case by simp
next
  case (Cons x xs)
  show ?case
  proof (cases "P x")
    case (Inl err)
    with Cons.prems show ?thesis by simp
  next
    case (Inr hit)
    show ?thesis
    proof (cases hit)
      case True
      with Inr Cons.prems show ?thesis by simp
    next
      case False
      with Inr Cons.prems obtain i' where i': "findIndex P xs = Inr (Some i')" "i = Suc i'"
        by (cases "findIndex P xs") auto
      from Cons.IH[OF i'(1)] Inr False i'(2) show ?thesis
        by (auto simp: less_Suc_eq_0_disj)
    qed
  qed
qed

lemma findIndex_first:
  "i < length xs \<Longrightarrow> P (xs ! i) = Inr True \<Longrightarrow> \<forall>j<i. P (xs ! j) = Inr False
   \<Longrightarrow> findIndex P xs = Inr (Some i)"
proof (induction xs arbitrary: i)
  case Nil
  then show ?case by simp
next
  case (Cons x xs)
  show ?case
  proof (cases i)
    case 0
    with Cons.prems show ?thesis by simp
  next
    case (Suc i')
    with Cons.prems have "P x = Inr False" by auto
    moreover from Cons.prems Suc have "findIndex P xs = Inr (Some i')"
      by (intro Cons.IH) auto
    ultimately show ?thesis using Suc by simp
  qed
qed

lemma findIndex_None:
  "\<forall>x\<in>set xs. P x = Inr False \<Longrightarrow> findIndex P xs = Inr None"
  by (induction xs) simp_all

lemma set_present: "set (present xs) = {x. Some x \<in> set xs}"
  by (induction xs rule: present.induct) auto

lemma present_map_Some: "present (map Some xs) = xs"
  by (induction xs) simp_all

lemma overlap_sym: "overlap a b = overlap b a"
  by (auto simp: overlap_def rangeOverlaps_def)

text \<open>
  \<^const>\<open>rowNoOverlap\<close> says what the specification says: events at two different
  places of the row never overlap.
\<close>

lemma rowNoOverlap_iff_nth:
  "rowNoOverlap r \<longleftrightarrow> (\<forall>i<length r. \<forall>j<length r. i \<noteq> j \<longrightarrow> \<not> overlap (r ! i) (r ! j))"
proof (induction r)
  case Nil
  then show ?case by simp
next
  case (Cons x r)
  show ?case (is "?L = ?R")
  proof
    assume L: ?L
    show ?R
    proof (intro allI impI)
      fix i j assume ij: "i < length (x # r)" "j < length (x # r)" "i \<noteq> j"
      show "\<not> overlap ((x # r) ! i) ((x # r) ! j)"
      proof (cases i)
        case 0
        with ij obtain j' where "j = Suc j'" "j' < length r" by (cases j) auto
        with L 0 show ?thesis by (auto simp: list_all_iff)
      next
        case (Suc i')
        show ?thesis
        proof (cases j)
          case 0
          with L Suc ij have "\<not> overlap x (r ! i')" by (auto simp: list_all_iff)
          with 0 Suc show ?thesis using overlap_sym by simp
        next
          case (Suc j')
          with L \<open>i = Suc i'\<close> ij Cons.IH show ?thesis by auto
        qed
      qed
    qed
  next
    assume R: ?R
    have "\<forall>b\<in>set r. \<not> overlap x b"
    proof
      fix b assume "b \<in> set r"
      then obtain j where "j < length r" "r ! j = b" by (auto simp: in_set_conv_nth)
      with R[rule_format, of 0 "Suc j"] show "\<not> overlap x b" by auto
    qed
    moreover have "rowNoOverlap r"
    proof -
      have "\<forall>i<length r. \<forall>j<length r. i \<noteq> j \<longrightarrow> \<not> overlap (r ! i) (r ! j)"
      proof (intro allI impI)
        fix i j assume "i < length r" "j < length r" "i \<noteq> j"
        with R[rule_format, of "Suc i" "Suc j"] show "\<not> overlap (r ! i) (r ! j)" by auto
      qed
      with Cons.IH show ?thesis by simp
    qed
    ultimately show ?L by (simp add: list_all_iff)
  qed
qed

lemma rowNoOverlap_distinct_places:
  "rowNoOverlap r \<Longrightarrow> a \<in> set r \<Longrightarrow> b \<in> set r \<Longrightarrow> a \<noteq> b \<Longrightarrow> \<not> overlap a b"
proof (induction r)
  case Nil
  then show ?case by simp
next
  case (Cons x r)
  then show ?case
    using overlap_sym by (auto simp: list_all_iff)
qed

section \<open>The snapping loop\<close>

text \<open>Each pass through the loop body can only raise \<^verbatim>\<open>s\<close> and lower \<^verbatim>\<open>e\<close>.\<close>

lemma snapTo_narrows:
  assumes "snapTo (s, e) ob = (s', e')"
  shows "s \<le> s' \<and> e' \<le> e"
  using assms by (auto simp: rangeOverlaps_def split: if_splits)

lemma foldl_snapTo_narrows:
  "foldl snapTo (s, e) obs = (s', e') \<Longrightarrow> s \<le> s' \<and> e' \<le> e"
proof (induction obs arbitrary: s e)
  case Nil
  then show ?case by simp
next
  case (Cons ob obs)
  obtain s1 e1 where step: "snapTo (s, e) ob = (s1, e1)"
    by (cases "snapTo (s, e) ob")
  with Cons.prems have "foldl snapTo (s1, e1) obs = (s', e')" by simp
  from Cons.IH[OF this] snapTo_narrows[OF step] show ?case by linarith
qed

text \<open>
  An ordered range that fits inside what one pass of the body left is not touched
  by the same event again.
\<close>

lemma snapTo_stable:
  assumes "snapTo (s, e) ob = (s1, e1)" and "s1 \<le> u" and "u \<le> v" and "v \<le> e1"
  shows "snapTo (u, v) ob = (u, v)"
  using assms by (auto simp: rangeOverlaps_def split: if_splits)

lemma foldl_snapTo_stable:
  "foldl snapTo (s, e) obs = (s', e') \<Longrightarrow> s' \<le> u \<Longrightarrow> u \<le> v \<Longrightarrow> v \<le> e'
   \<Longrightarrow> foldl snapTo (u, v) obs = (u, v)"
proof (induction obs arbitrary: s e)
  case Nil
  then show ?case by simp
next
  case (Cons ob obs)
  obtain s1 e1 where step: "snapTo (s, e) ob = (s1, e1)"
    by (cases "snapTo (s, e) ob")
  with Cons.prems have rest: "foldl snapTo (s1, e1) obs = (s', e')" by simp
  from foldl_snapTo_narrows[OF rest] Cons.prems have "s1 \<le> u" "v \<le> e1" by linarith+
  with step Cons.prems have "snapTo (u, v) ob = (u, v)"
    using snapTo_stable by blast
  moreover from Cons.IH[OF rest] Cons.prems have "foldl snapTo (u, v) obs = (u, v)" by blast
  ultimately show ?case by simp
qed

lemma foldl_snapTo_unmoved:
  "(\<And>ob. ob \<in> set obs \<Longrightarrow> snapTo p ob = p) \<Longrightarrow> foldl snapTo p obs = p"
  by (induction obs) simp_all

lemma normalized_range:
  "normalized ps pe = (s, e) \<Longrightarrow> 0 \<le> s \<and> s \<le> e \<and> e \<le> TOTAL_SLOTS - 1"
  by (auto simp: normalized_def clamp_def TOTAL_SLOTS_eq Let_def split: if_splits)

lemma normalized_fixed:
  "0 \<le> s \<Longrightarrow> s \<le> e \<Longrightarrow> e \<le> TOTAL_SLOTS - 1 \<Longrightarrow> normalized s e = (s, e)"
  by (auto simp: normalized_def clamp_def Let_def)

lemma settled_fixed:
  "0 \<le> s \<Longrightarrow> s \<le> e \<Longrightarrow> e \<le> TOTAL_SLOTS - 1 \<Longrightarrow> settled (s, e) = (s, e)"
  by (auto simp: clamp_def Let_def)

lemma othersOf_subset: "ob \<in> set (othersOf evs x) \<Longrightarrow> Some ob \<in> set evs"
  by (auto simp: othersOf_def List.map_filter_def in_set_enumerate_eq split: if_splits)
     (metis nth_mem)

section \<open>Claims about the gestures\<close>

text \<open>
  Claim C1 (non-overlap after every committed mutation). The create gesture
  commits the selected range as it is: \<^verbatim>\<open>handleMouseUp\<close> never consults
  \<^verbatim>\<open>allowedRangeFor\<close>. From the empty schedule, creating an event on slots 5 to 7
  of row 0 and then dragging a selection from slot 3 to slot 10 over it leaves two
  overlapping events in the row.
\<close>

theorem create_gesture_commits_overlap:
  "run initialState [MouseDown 0 5, MouseEnter 0 7, MouseUp (Some ''A''),
                     MouseDown 0 3, MouseEnter 0 10, MouseUp (Some ''B'')]
     = Inr (initialState\<lparr>events := [[Some \<lparr>start = 5, end' = 7, title = Some ''A''\<rparr>,
                                       Some \<lparr>start = 3, end' = 10, title = Some ''B''\<rparr>],
                                      [], []]\<rparr>)
   \<and> overlap \<lparr>start = 5, end' = 7, title = Some ''A''\<rparr>
              \<lparr>start = 3, end' = 10, title = Some ''B''\<rparr>
   \<and> \<not> rowNoOverlap (present [Some \<lparr>start = 5, end' = 7, title = Some ''A''\<rparr>,
                                Some \<lparr>start = 3, end' = 10, title = Some ''B''\<rparr>])"
  by code_simp

text \<open>
  The move gesture reaches an overlap as well: with events on slots 0 to 10 and 20
  to 22, dragging the second one from slot 21 to slot 9 collapses it onto slot 10,
  the last slot of the first.
\<close>

lemma move_gesture_commits_overlap:
  "run (initialState\<lparr>events := [[Some \<lparr>start = 0, end' = 10, title = Some ''A''\<rparr>,
                                    Some \<lparr>start = 20, end' = 22, title = Some ''B''\<rparr>],
                                   [], []]\<rparr>)
       [MouseDown 0 21, MouseEnter 0 9]
     = Inr \<lparr>events = [[Some \<lparr>start = 0, end' = 10, title = Some ''A''\<rparr>,
                        Some \<lparr>start = 10, end' = 10, title = Some ''B''\<rparr>], [], []],
            isSelecting = False, selectRow = None, selectStart = None, selectCurrent = None,
            drag = \<lparr>mode = ModeMove, row = Some 0, eventIndex = Some 1, anchorSlot = Some 21,
                    initialStart = Some 20, initialEnd = Some 22\<rparr>\<rparr>
   \<and> overlap \<lparr>start = 0, end' = 10, title = Some ''A''\<rparr>
              \<lparr>start = 10, end' = 10, title = Some ''B''\<rparr>"
  by code_simp

text \<open>
  Claim C7 (move scenario), as the code has it. With the single event on slots 2
  to 6, a pointer-down at slot 4 starts a move, and a pointer-enter at slot 40
  carries the event 36 slots to the right, onto slots 38 to 42: the length is kept,
  and the event lies within the 44 slots where the pointer has carried it.
\<close>

theorem move_scenario:
  "run (initialState\<lparr>events := [Some \<lparr>start = 2, end' = 6, title = t\<rparr>] # rest\<rparr>)
       [MouseDown 0 4, MouseEnter 0 40]
     = Inr \<lparr>events = [Some \<lparr>start = 38, end' = 42, title = t\<rparr>] # rest,
            isSelecting = False, selectRow = None, selectStart = None, selectCurrent = None,
            drag = \<lparr>mode = ModeMove, row = Some 0, eventIndex = Some 0, anchorSlot = Some 4,
                    initialStart = Some 2, initialEnd = Some 6\<rparr>\<rparr>"
  by (simp add: gesture_defs)

text \<open>
  With the pointer entering slot 43 instead, the translated range would end on slot
  45; the event is shifted back as a whole and ends on slot 43.
\<close>

lemma move_scenario_shifted_back:
  "run (initialState\<lparr>events := [Some \<lparr>start = 2, end' = 6, title = t\<rparr>] # rest\<rparr>)
       [MouseDown 0 4, MouseEnter 0 43]
     = Inr \<lparr>events = [Some \<lparr>start = 39, end' = 43, title = t\<rparr>] # rest,
            isSelecting = False, selectRow = None, selectStart = None, selectCurrent = None,
            drag = \<lparr>mode = ModeMove, row = Some 0, eventIndex = Some 0, anchorSlot = Some 4,
                    initialStart = Some 2, initialEnd = Some 6\<rparr>\<rparr>"
  by (simp add: gesture_defs)

text \<open>
  The scenario as claim C7 words it fails: after the pointer-enter at slot 40 the
  row does not hold the event on slots 39 to 43.
\<close>

theorem move_scenario_not_39_43:
  "run (initialState\<lparr>events := [[Some \<lparr>start = 2, end' = 6, title = Some ''Standup''\<rparr>],
                                   [], []]\<rparr>)
       [MouseDown 0 4, MouseEnter 0 40]
     = Inr \<lparr>events = [[Some \<lparr>start = 38, end' = 42, title = Some ''Standup''\<rparr>], [], []],
            isSelecting = False, selectRow = None, selectStart = None, selectCurrent = None,
            drag = \<lparr>mode = ModeMove, row = Some 0, eventIndex = Some 0, anchorSlot = Some 4,
                    initialStart = Some 2, initialEnd = Some 6\<rparr>\<rparr>
   \<and> [Some \<lparr>start = 38, end' = 42, title = Some ''Standup''\<rparr>]
       \<noteq> [Some \<lparr>start = 39, end' = 43, title = Some ''Standup''\<rparr>]"
  by (simp add: gesture_defs)

text \<open>
  Claim C8 (collision snap). In a row holding events on slots 10 to 15 and 20 to
  25, a pointer-down on slot 15, the last slot of the first event, starts
  resize-right; the pointer-enter at slot 22 commits the first event with end 19,
  one less than the start of its neighbour, and start 10 as before.
\<close>

theorem collision_snap_scenario:
  "run (initialState\<lparr>events := [Some \<lparr>start = 10, end' = 15, title = t1\<rparr>,
                                   Some \<lparr>start = 20, end' = 25, title = t2\<rparr>] # rest\<rparr>)
       [MouseDown 0 15, MouseEnter 0 22]
     = Inr \<lparr>events = [Some \<lparr>start = 10, end' = 19, title = t1\<rparr>,
                       Some \<lparr>start = 20, end' = 25, title = t2\<rparr>] # rest,
            isSelecting = False, selectRow = None, selectStart = None, selectCurrent = None,
            drag = \<lparr>mode = ModeResizeRight, row = Some 0, eventIndex = Some 0,
                    anchorSlot = Some 15, initialStart = Some 10, initialEnd = Some 15\<rparr>\<rparr>"
  by (simp add: gesture_defs)

text \<open>
  Claim C9 (gesture classification). Let the pointer go down on a slot of a row,
  and let \<open>evt\<close>, at index \<open>i\<close>, be the first event of the row that holds the slot,
  the places before it being events that do not hold it. Then the hit test finds
  that event, and the handler records a drag on it, with the row, the index, the
  anchor slot and the event's start and end before the drag. The mode is move for an
  event of a single slot and for a hit strictly between the first and the last
  slot; for an event of more than one slot it is resize-left for a hit on the first
  slot and resize-right for a hit on the last.
\<close>

theorem gesture_classification:
  assumes row: "rowIdx < length (events st)"
    and place: "i < length (events st ! rowIdx)" "events st ! rowIdx ! i = Some evt"
    and hit: "start evt \<le> slotIdx" "slotIdx \<le> end' evt"
    and first: "\<forall>j<i. \<exists>other. events st ! rowIdx ! j = Some other
                  \<and> \<not> (start other \<le> slotIdx \<and> slotIdx \<le> end' other)"
  shows "\<exists>m. onMouseDownCell rowIdx slotIdx st =
            Inr (st\<lparr>drag := \<lparr>mode = m, row = Some rowIdx, eventIndex = Some i,
                               anchorSlot = Some slotIdx,
                               initialStart = Some (start evt),
                               initialEnd = Some (end' evt)\<rparr>\<rparr>)
          \<and> (start evt = end' evt \<or> (start evt < slotIdx \<and> slotIdx < end' evt)
              \<longrightarrow> m = ModeMove)
          \<and> (start evt \<noteq> end' evt \<and> slotIdx = start evt \<longrightarrow> m = ModeResizeLeft)
          \<and> (start evt \<noteq> end' evt \<and> slotIdx = end' evt \<longrightarrow> m = ModeResizeRight)"
proof -
  have "covers slotIdx (events st ! rowIdx ! i) = Inr True"
    using place hit by (simp add: covers_def)
  moreover have "\<forall>j<i. covers slotIdx (events st ! rowIdx ! j) = Inr False"
    using first by (auto simp: covers_def)
  ultimately have "findIndex (covers slotIdx) (events st ! rowIdx) = Inr (Some i)"
    using place(1) findIndex_first by blast
  with row have "findEventAt (events st) rowIdx slotIdx = Inr (Some i)"
    by (simp add: findEventAt_def)
  with place hit show ?thesis
    by (auto simp: onMouseDownCell_def Let_def)
qed

theorem gesture_classification_witness:
  "onMouseDownCell 0 25
     (initialState\<lparr>events := [[Some \<lparr>start = 10, end' = 15, title = Some ''A''\<rparr>,
                                Some \<lparr>start = 20, end' = 25, title = Some ''B''\<rparr>], [], []]\<rparr>)
     = Inr \<lparr>events = [[Some \<lparr>start = 10, end' = 15, title = Some ''A''\<rparr>,
                        Some \<lparr>start = 20, end' = 25, title = Some ''B''\<rparr>], [], []],
            isSelecting = False, selectRow = None, selectStart = None, selectCurrent = None,
            drag = \<lparr>mode = ModeResizeRight, row = Some 0, eventIndex = Some 1,
                    anchorSlot = Some 25, initialStart = Some 20, initialEnd = Some 25\<rparr>\<rparr>"
  using gesture_classification
    [of 0 "initialState\<lparr>events := [[Some \<lparr>start = 10, end' = 15, title = Some ''A''\<rparr>,
                                     Some \<lparr>start = 20, end' = 25, title = Some ''B''\<rparr>],
                                    [], []]\<rparr>"
        1 "\<lparr>start = 20, end' = 25, title = Some ''B''\<rparr>" 25]
  by (auto simp: initialState_def noDrag_def)

text \<open>
  On a slot that no event of the row holds, the pointer-down starts the create
  selection and leaves the drag state alone.
\<close>

lemma pointer_down_on_free_slot:
  assumes "rowIdx < length (events st)"
    and "\<forall>entry\<in>set (events st ! rowIdx). \<exists>ev. entry = Some ev
           \<and> \<not> (start ev \<le> slotIdx \<and> slotIdx \<le> end' ev)"
  shows "onMouseDownCell rowIdx slotIdx st =
           Inr (st\<lparr>isSelecting := True, selectRow := Some rowIdx,
                   selectStart := Some slotIdx, selectCurrent := Some slotIdx\<rparr>)"
proof -
  from assms(2) have "\<forall>entry\<in>set (events st ! rowIdx). covers slotIdx entry = Inr False"
    by (auto simp: covers_def)
  then have "findIndex (covers slotIdx) (events st ! rowIdx) = Inr None"
    by (rule findIndex_None)
  with assms(1) show ?thesis by (simp add: onMouseDownCell_def findEventAt_def)
qed

section \<open>Claims about the collision resolver\<close>

text \<open>
  Claim C3 (idempotence of the resolver), as the code has it. When the snapping
  loop of an application leaves \<^verbatim>\<open>s\<close> and \<^verbatim>\<open>e\<close> in order, so that nothing is
  collapsed at the end, the resolver returns that range, and applied to its own
  result with the same row and the same excluded index it returns the range again.
  A proposal that no other event of the row obstructs is such a case.
\<close>

theorem resolver_idempotent_without_collapse:
  assumes row: "rowIdx < length evs"
    and loop: "snapped (evs ! rowIdx) excludeIndex ps pe = (s1, e1)"
    and ordered: "s1 \<le> e1"
  shows "allowedRangeFor evs rowIdx excludeIndex ps pe = Inr (s1, e1)
       \<and> allowedRangeFor evs rowIdx excludeIndex s1 e1 = Inr (s1, e1)"
proof -
  obtain s0 e0 where norm: "normalized ps pe = (s0, e0)"
    by (cases "normalized ps pe")
  from loop norm
  have fold: "foldl snapTo (s0, e0) (othersOf (evs ! rowIdx) excludeIndex) = (s1, e1)"
    by (simp add: snapped_def)
  from foldl_snapTo_narrows[OF fold] normalized_range[OF norm] ordered
  have bounds: "0 \<le> s1" "s1 \<le> e1" "e1 \<le> TOTAL_SLOTS - 1" by linarith+
  then have same: "settled (s1, e1) = (s1, e1)" "normalized s1 e1 = (s1, e1)"
    using settled_fixed normalized_fixed by blast+
  have first: "allowedRangeFor evs rowIdx excludeIndex ps pe = Inr (s1, e1)"
    using row loop same by (simp add: allowedRangeFor_def)
  have "foldl snapTo (s1, e1) (othersOf (evs ! rowIdx) excludeIndex) = (s1, e1)"
    using foldl_snapTo_stable[OF fold] ordered by simp
  then have "snapped (evs ! rowIdx) excludeIndex s1 e1 = (s1, e1)"
    using same by (simp add: snapped_def)
  then have "allowedRangeFor evs rowIdx excludeIndex s1 e1 = Inr (s1, e1)"
    using row same by (simp add: allowedRangeFor_def)
  with first show ?thesis by simp
qed

theorem resolver_idempotent_witness:
  "0 < length [[Some \<lparr>start = 10, end' = 15, title = Some ''A''\<rparr>,
                Some \<lparr>start = 20, end' = 25, title = Some ''B''\<rparr>], [], []]
   \<and> snapped ([[Some \<lparr>start = 10, end' = 15, title = Some ''A''\<rparr>,
                 Some \<lparr>start = 20, end' = 25, title = Some ''B''\<rparr>], [], []] ! 0)
       (Some 0) 10 22 = (10, 19)
   \<and> allowedRangeFor [[Some \<lparr>start = 10, end' = 15, title = Some ''A''\<rparr>,
                        Some \<lparr>start = 20, end' = 25, title = Some ''B''\<rparr>], [], []]
       0 (Some 0) 10 22 = Inr (10, 19)
   \<and> allowedRangeFor [[Some \<lparr>start = 10, end' = 15, title = Some ''A''\<rparr>,
                        Some \<lparr>start = 20, end' = 25, title = Some ''B''\<rparr>], [], []]
       0 (Some 0) 10 19 = Inr (10, 19)"
  using resolver_idempotent_without_collapse
    [of 0 "[[Some \<lparr>start = 10, end' = 15, title = Some ''A''\<rparr>,
             Some \<lparr>start = 20, end' = 25, title = Some ''B''\<rparr>], [], []]" "Some 0" 10 22 10 19]
  by (simp add: snapped_def normalized_def othersOf_def clamp_def rangeOverlaps_def
      TOTAL_SLOTS_eq)

text \<open>
  With no obstruction at all the resolver returns the proposal it was given, after
  normalisation.
\<close>

lemma unobstructed_proposal_kept:
  assumes "rowIdx < length evs"
    and "\<forall>ob \<in> set (othersOf (evs ! rowIdx) excludeIndex).
           \<not> rangeOverlaps (fst (normalized ps pe)) (snd (normalized ps pe)) (start ob) (end' ob)"
  shows "allowedRangeFor evs rowIdx excludeIndex ps pe = Inr (normalized ps pe)"
proof -
  obtain s e where norm: "normalized ps pe = (s, e)"
    by (cases "normalized ps pe")
  with assms(2) have "snapTo (s, e) ob = (s, e)"
    if "ob \<in> set (othersOf (evs ! rowIdx) excludeIndex)" for ob
    using that by simp
  then have "snapped (evs ! rowIdx) excludeIndex ps pe = (s, e)"
    using norm foldl_snapTo_unmoved by (simp add: snapped_def)
  moreover from normalized_range[OF norm] have "settled (s, e) = (s, e)"
    using settled_fixed by blast
  ultimately show ?thesis using assms(1) norm by (simp add: allowedRangeFor_def)
qed

text \<open>
  Claim C3 as worded fails. In the row with events on slot 5 and on slots 6 to 10,
  which do not overlap, the proposal from slot 6 to slot 8 is snapped below the
  second event and collapsed onto slot 5; the resolver applied to that result is
  snapped by the first event and collapses onto slot 4.
\<close>

theorem resolver_not_idempotent:
  "allowedRangeFor [[Some \<lparr>start = 5, end' = 5, title = Some ''A''\<rparr>,
                     Some \<lparr>start = 6, end' = 10, title = Some ''B''\<rparr>], [], []] 0 None 6 8
     = Inr (5, 5)
   \<and> allowedRangeFor [[Some \<lparr>start = 5, end' = 5, title = Some ''A''\<rparr>,
                       Some \<lparr>start = 6, end' = 10, title = Some ''B''\<rparr>], [], []] 0 None 5 5
     = Inr (4, 4)
   \<and> rowNoOverlap (present [Some \<lparr>start = 5, end' = 5, title = Some ''A''\<rparr>,
                            Some \<lparr>start = 6, end' = 10, title = Some ''B''\<rparr>])"
  by (simp add: allowedRangeFor_def snapped_def normalized_def othersOf_def clamp_def
      rangeOverlaps_def overlap_def TOTAL_SLOTS_eq)

text \<open>
  Claim C10 (a proposal strictly inside an event), as the code has it. Let the row
  hold an event \<open>ob\<close> and let the normalised proposal \<open>(s, e)\<close> lie strictly inside
  it. If no other event that the loop visits overlaps \<open>(s, e)\<close>, the resolver
  returns \<open>(s, e)\<close> unchanged, and that range overlaps \<open>ob\<close>.
\<close>

theorem inside_proposal_unchanged:
  assumes row: "rowIdx < length evs"
    and member: "Some ob \<in> set (evs ! rowIdx)"
    and norm: "normalized ps pe = (s, e)"
    and inside: "start ob < s" "e < end' ob"
    and free: "\<forall>other \<in> set (othersOf (evs ! rowIdx) excludeIndex).
                 other \<noteq> ob \<longrightarrow> \<not> rangeOverlaps s e (start other) (end' other)"
  shows "allowedRangeFor evs rowIdx excludeIndex ps pe = Inr (s, e)
       \<and> rangeOverlaps s e (start ob) (end' ob)"
proof -
  have "snapTo (s, e) other = (s, e)"
    if "other \<in> set (othersOf (evs ! rowIdx) excludeIndex)" for other
  proof (cases "other = ob")
    case True
    with inside show ?thesis by (simp add: rangeOverlaps_def)
  next
    case False
    with free that show ?thesis by simp
  qed
  then have "snapped (evs ! rowIdx) excludeIndex ps pe = (s, e)"
    using norm foldl_snapTo_unmoved by (simp add: snapped_def)
  moreover from normalized_range[OF norm] have "settled (s, e) = (s, e)"
    using settled_fixed by blast
  moreover from normalized_range[OF norm] inside have "rangeOverlaps s e (start ob) (end' ob)"
    by (simp add: rangeOverlaps_def)
  ultimately show ?thesis using row by (simp add: allowedRangeFor_def)
qed

theorem inside_proposal_witness:
  "normalized 3 6 = (3, 6)
   \<and> allowedRangeFor [[Some \<lparr>start = 0, end' = 10, title = Some ''A''\<rparr>,
                        Some \<lparr>start = 20, end' = 25, title = Some ''B''\<rparr>], [], []] 0 None 3 6
       = Inr (3, 6)
   \<and> rangeOverlaps 3 6 0 10"
  using inside_proposal_unchanged
    [of 0 "[[Some \<lparr>start = 0, end' = 10, title = Some ''A''\<rparr>,
             Some \<lparr>start = 20, end' = 25, title = Some ''B''\<rparr>], [], []]"
        "\<lparr>start = 0, end' = 10, title = Some ''A''\<rparr>" 3 6 3 6 None]
  by (simp add: normalized_def othersOf_def clamp_def rangeOverlaps_def TOTAL_SLOTS_eq)

text \<open>
  In a row that satisfies the non-overlap invariant no other event overlaps a range
  inside \<open>ob\<close>, so there the condition on the other events always holds.
\<close>

lemma invariant_row_leaves_inside_free:
  assumes "rowNoOverlap (present r)" and "Some ob \<in> set r" and "start ob < s" and "e < end' ob"
    and "other \<in> set (othersOf r excludeIndex)" and "other \<noteq> ob"
  shows "\<not> rangeOverlaps s e (start other) (end' other)"
proof -
  from assms othersOf_subset have "Some other \<in> set r" by blast
  with assms have "other \<in> set (present r)" "ob \<in> set (present r)"
    by (simp_all add: set_present)
  with assms rowNoOverlap_distinct_places have "\<not> overlap ob other" by blast
  with assms show ?thesis by (auto simp: overlap_def rangeOverlaps_def)
qed

text \<open>
  Claim C10 as worded fails in a row where a second event overlaps the first: the
  proposal from slot 3 to slot 6 lies strictly inside the event on slots 0 to 10,
  and the event on slots 4 to 5 snaps its end to slot 3.
\<close>

theorem inside_proposal_snapped_by_other:
  "normalized 3 6 = (3, 6) \<and> (0::int) < 3 \<and> (6::int) < 10
   \<and> allowedRangeFor [[Some \<lparr>start = 0, end' = 10, title = Some ''A''\<rparr>,
                        Some \<lparr>start = 4, end' = 5, title = Some ''B''\<rparr>], [], []] 0 None 3 6
       = Inr (3, 3)"
  by (simp add: normalized_def allowedRangeFor_def snapped_def othersOf_def clamp_def
      rangeOverlaps_def TOTAL_SLOTS_eq)

section \<open>Validation: what an accepted payload looks like\<close>

text \<open>
  What each stage of \<^verbatim>\<open>validateRows\<close> has established when it lets a value through.
\<close>

lemma isValidEventBlock_True:
  assumes "isValidEventBlock ev = Inr True"
  shows "\<exists>s e t. getProp ev ''start'' = JInt s \<and> getProp ev ''end'' = JInt e
           \<and> getProp ev ''title'' = JStr t \<and> 0 \<le> s \<and> s \<le> e \<and> e < TOTAL_SLOTS"
proof -
  from assms have types: "isNumber (getProp ev ''start'')" "isNumber (getProp ev ''end'')"
    "isString (getProp ev ''title'')"
    by (auto simp: isValidEventBlock_def split: if_splits)
  from types(3) obtain t where t: "getProp ev ''title'' = JStr t"
    by (cases "getProp ev ''title''") auto
  from assms types obtain s e where se: "getProp ev ''start'' = JInt s" "getProp ev ''end'' = JInt e"
    by (cases "getProp ev ''start''"; cases "getProp ev ''end''")
       (auto simp: isValidEventBlock_def split: if_splits)
  with assms types have "0 \<le> s \<and> s \<le> e \<and> e < TOTAL_SLOTS"
    by (auto simp: isValidEventBlock_def split: if_splits)
  with t se show ?thesis by blast
qed

lemma checkEvents_True:
  "checkEvents evs = Inr True \<Longrightarrow> ev \<in> set evs \<Longrightarrow> isValidEventBlock ev = Inr True"
proof (induction evs)
  case Nil
  then show ?case by simp
next
  case (Cons x evs)
  then show ?case
    by (cases "isValidEventBlock x") (auto split: if_splits)
qed

lemma checkRows_True:
  "checkRows rs = Inr True \<Longrightarrow> r \<in> set rs \<Longrightarrow> \<exists>evs. r = JArr evs \<and> checkEvents evs = Inr True"
proof (induction rs rule: checkRows.induct)
  case 1
  then show ?case by simp
next
  case (2 evs rs)
  then show ?case
    by (cases "checkEvents evs") (auto split: if_splits)
qed simp_all

text \<open>
  In a row of valid events that passes the loop over neighbours, every event ends
  before any later one starts: the comparison of neighbours carries along the row
  because each event starts no later than it ends.
\<close>

lemma consecutiveOk_chain:
  "\<forall>y\<in>set ys. startOf y \<le> endOf y \<Longrightarrow> consecutiveOk ys
   \<Longrightarrow> sorted_wrt (\<lambda>a b. endOf a < startOf b) ys"
proof (induction ys rule: consecutiveOk.induct)
  case (1 prev cur rest)
  from "1.prems" have step: "endOf prev < startOf cur" and tail: "consecutiveOk (cur # rest)"
    by (auto split: if_splits)
  from step have branch: "\<not> startOf cur \<le> endOf prev" by simp
  from "1.IH"(2)[OF branch] "1.prems"(1) tail
  have sw: "sorted_wrt (\<lambda>a b. endOf a < startOf b) (cur # rest)" by simp
  have "endOf prev < startOf z" if "z \<in> set rest" for z
  proof -
    from sw that have "endOf cur < startOf z" by simp
    moreover from "1.prems"(1) have "startOf cur \<le> endOf cur" by simp
    ultimately show ?thesis using step by linarith
  qed
  with step sw show ?case by simp
qed simp_all

lemma sorted_wrt_either:
  "sorted_wrt P ys \<Longrightarrow> a \<in> set ys \<Longrightarrow> b \<in> set ys \<Longrightarrow> a \<noteq> b \<Longrightarrow> P a b \<or> P b a"
  by (induction ys) auto

text \<open>
  A symmetric relation holds between all pairs of a list exactly when it holds
  between all pairs of the sorted list: sorting only permutes.
\<close>

lemma sorted_wrt_insort_key_sym:
  assumes "\<And>a b. Q a b \<Longrightarrow> Q b a"
  shows "sorted_wrt Q (insort_key f x xs) \<longleftrightarrow> (\<forall>y\<in>set xs. Q x y) \<and> sorted_wrt Q xs"
  using assms by (induction xs) (auto simp: set_insort_key)

lemma sorted_wrt_sort_key_sym:
  assumes "\<And>a b. Q a b \<Longrightarrow> Q b a"
  shows "sorted_wrt Q (sort_key f xs) \<longleftrightarrow> sorted_wrt Q xs"
proof (induction xs)
  case Nil
  then show ?case by simp
next
  case (Cons x xs)
  then show ?case
    using sorted_wrt_insort_key_sym[of Q f x "sort_key f xs", OF assms] by simp
qed

text \<open>
  The converse for rows sorted by start: events that are pairwise apart pass the
  loop over neighbours.
\<close>

lemma consecutiveOk_sorted_apart:
  "sorted (map startOf ys)
   \<Longrightarrow> sorted_wrt (\<lambda>a b. endOf a < startOf b \<or> endOf b < startOf a) ys
   \<Longrightarrow> \<forall>y\<in>set ys. startOf y \<le> endOf y \<Longrightarrow> consecutiveOk ys"
proof (induction ys rule: consecutiveOk.induct)
  case (1 prev cur rest)
  from "1.prems" have "endOf prev < startOf cur \<or> endOf cur < startOf prev" by simp
  moreover from "1.prems" have "startOf prev \<le> startOf cur" "startOf cur \<le> endOf cur" by simp_all
  ultimately have step: "endOf prev < startOf cur" by linarith
  then have branch: "\<not> startOf cur \<le> endOf prev" by simp
  from "1.IH"(2)[OF branch] "1.prems" have "consecutiveOk (cur # rest)" by simp
  with step show ?case by simp
qed simp_all

text \<open>
  The typed view of what \<^verbatim>\<open>JSON.parse\<close> gives back for saved rows is those rows, when
  every place of every row is an event with a title.
\<close>

lemma allSome_map:
  "\<forall>x\<in>set xs. \<exists>y. f x = Some y \<Longrightarrow> allSome (map f xs) = Some (map (\<lambda>x. the (f x)) xs)"
  by (induction xs) auto

lemma properEvent_Some:
  "properEvent entry \<Longrightarrow> \<exists>ev t. entry = Some ev \<and> title ev = Some t \<and> inBounds ev"
  by (auto simp: properEvent_def split: option.splits)

lemma proper_row_no_holes: "list_all properEvent r \<Longrightarrow> map Some (present r) = r"
  by (induction r rule: present.induct) (auto simp: properEvent_def)

lemma asEventBlock_jsEntry: "properEvent entry \<Longrightarrow> asEventBlock (jsEntry entry) = entry"
  by (auto simp: properEvent_def jsEntry_def jsEvent_def asEventBlock_def split: option.splits)

lemma asRow_jsEntries: "list_all properEvent r \<Longrightarrow> asRow (JArr (map jsEntry r)) = Some r"
proof -
  assume proper: "list_all properEvent r"
  then have "allSome (map asEventBlock (map jsEntry r)) = Some (present r)"
  proof (induction r)
    case Nil
    then show ?case by simp
  next
    case (Cons entry r)
    then obtain ev where "entry = Some ev" using properEvent_Some by auto
    with Cons asEventBlock_jsEntry[of entry] show ?case by simp
  qed
  with proper_row_no_holes[OF proper] show ?thesis by simp
qed

lemma asRows_jsRows: "list_all (list_all properEvent) rws \<Longrightarrow> asRows (jsRows rws) = Some rws"
proof -
  assume "list_all (list_all properEvent) rws"
  then have "allSome (map asRow (map (\<lambda>r. JArr (map jsEntry r)) rws)) = Some rws"
    by (induction rws) (simp_all add: asRow_jsEntries del: asRow.simps)
  then show ?thesis by (simp add: jsRows_def)
qed

lemma startOf_jsEvent [simp]: "startOf (jsEvent ev) = start ev"
  by (simp add: jsEvent_def startOf_def)

lemma endOf_jsEvent [simp]: "endOf (jsEvent ev) = end' ev"
  by (simp add: jsEvent_def endOf_def)

text \<open>Saved rows that satisfy the Row invariants pass every stage.\<close>

lemma isValidEventBlock_jsEntry:
  "properEvent entry \<Longrightarrow> isValidEventBlock (jsEntry entry) = Inr True"
  by (auto simp: properEvent_def isValidEventBlock_def jsEntry_def jsEvent_def inBounds_def
      split: option.splits)

lemma checkEvents_jsEntries:
  "list_all properEvent r \<Longrightarrow> checkEvents (map jsEntry r) = Inr True"
  by (induction r) (simp_all add: isValidEventBlock_jsEntry)

lemma checkRows_jsRows:
  "list_all (list_all properEvent) rws
   \<Longrightarrow> checkRows (map (\<lambda>r. JArr (map jsEntry r)) rws) = Inr True"
  by (induction rws) (simp_all add: checkEvents_jsEntries)

lemma rowNoOverlap_sorted_wrt: "rowNoOverlap r \<longleftrightarrow> sorted_wrt (\<lambda>a b. \<not> overlap a b) r"
  by (induction r) (auto simp: list_all_iff)

lemma consecutiveOk_jsEvents:
  assumes bounds: "list_all inBounds es" and apart: "rowNoOverlap es"
  shows "consecutiveOk (sort_key startOf (map jsEvent es))"
proof (rule consecutiveOk_sorted_apart)
  show "sorted (map startOf (sort_key startOf (map jsEvent es)))"
    by (rule sorted_sort_key)
  have "sorted_wrt (\<lambda>a b. endOf a < startOf b \<or> endOf b < startOf a) (map jsEvent es)"
    using apart unfolding rowNoOverlap_sorted_wrt sorted_wrt_map
    by (rule sorted_wrt_mono_rel[rotated]) (auto simp: overlap_def rangeOverlaps_def)
  then show "sorted_wrt (\<lambda>a b. endOf a < startOf b \<or> endOf b < startOf a)
               (sort_key startOf (map jsEvent es))"
    by (subst sorted_wrt_sort_key_sym) auto
  from bounds show "\<forall>y\<in>set (sort_key startOf (map jsEvent es)). startOf y \<le> endOf y"
    by (auto simp: list_all_iff inBounds_def)
qed

lemma consecutiveOk_jsEntries:
  assumes proper: "list_all properEvent r" and apart: "rowNoOverlap (present r)"
  shows "consecutiveOk (sort_key startOf (map jsEntry r))"
proof -
  have "map jsEntry (map Some (present r)) = map jsEvent (present r)"
    by (simp add: jsEntry_def)
  with proper_row_no_holes[OF proper] have "map jsEntry r = map jsEvent (present r)" by simp
  moreover from proper have "list_all inBounds (present r)"
    using properEvent_Some by (fastforce simp: list_all_iff set_present)
  ultimately show ?thesis using consecutiveOk_jsEvents[OF _ apart] by simp
qed

lemma validateRows_jsRows:
  assumes "rowInvariants rws"
  shows "validateRows (jsRows rws) = Inr True"
proof -
  from assms have len: "length rws = ROWS"
    and proper: "list_all (list_all properEvent) rws"
    and apart: "list_all (\<lambda>r. rowNoOverlap (present r)) rws"
    by (auto simp: rowInvariants_def list_all_iff)
  have "list_all (\<lambda>r. consecutiveOk (sort_key startOf (elems r)))
          (map (\<lambda>r. JArr (map jsEntry r)) rws)"
    using proper apart consecutiveOk_jsEntries by (auto simp: list_all_iff)
  with len checkRows_jsRows[OF proper] show ?thesis
    by (simp add: validateRows_def jsRows_def)
qed

text \<open>Anything but version 1 with valid rows is rejected by every reader.\<close>

lemma validateRows_True:
  assumes "validateRows j = Inr True"
  shows "\<exists>rs. j = JArr rs \<and> length rs = ROWS \<and> checkRows rs = Inr True
           \<and> list_all (\<lambda>r. consecutiveOk (sort_key startOf (elems r))) rs"
proof -
  from assms obtain rs where j: "j = JArr rs"
    by (cases j) (simp_all add: validateRows_def)
  from assms j have len: "length rs = ROWS"
    by (simp add: validateRows_def split: if_splits)
  from assms j len have "checkRows rs = Inr True"
    by (cases "checkRows rs") (auto simp: validateRows_def split: if_splits)
  with assms j len show ?thesis
    by (simp add: validateRows_def)
qed

lemma rejected_unless_valid:
  assumes "getProp p ''version'' \<noteq> JInt 1 \<or> validateRows (getProp p ''rows'') \<noteq> Inr True"
  shows "rejected p st"
proof -
  have "loadFromStorage (Parsed p) = None"
    using assms by (cases "validateRows (getProp p ''rows'')") (auto simp: loadFromStorage_def)
  moreover have "handleImportFile (Parsed p) c st = Inr st" for c
    using assms by (cases "validateRows (getProp p ''rows'')") (auto simp: handleImportFile_def)
  ultimately show ?thesis by (simp add: rejected_def handleManualLoad_def)
qed

lemma valid_payload_rows:
  assumes valid: "validateRows (getProp p ''rows'') = Inr True"
    and row: "evs \<in> set (payloadRows p)"
  shows "(\<forall>ev\<in>set evs. isValidEventBlock ev = Inr True) \<and> consecutiveOk (sort_key startOf evs)"
proof -
  from validateRows_True[OF valid] obtain rs where rs: "getProp p ''rows'' = JArr rs"
    "checkRows rs = Inr True" "list_all (\<lambda>r. consecutiveOk (sort_key startOf (elems r))) rs"
    by blast
  from row rs(1) obtain r where r: "r \<in> set rs" "evs = elems r"
    by (auto simp: payloadRows_def)
  from checkRows_True[OF rs(2) r(1)] r(2) have "checkEvents evs = Inr True" by auto
  then have "\<forall>ev\<in>set evs. isValidEventBlock ev = Inr True"
    using checkEvents_True by blast
  moreover from rs(3) r have "consecutiveOk (sort_key startOf evs)"
    by (auto simp: list_all_iff)
  ultimately show ?thesis by simp
qed

lemma valid_row_apart:
  assumes "\<forall>ev\<in>set evs. isValidEventBlock ev = Inr True"
    and "consecutiveOk (sort_key startOf evs)"
  shows "sorted_wrt (\<lambda>a b. endOf a < startOf b \<or> endOf b < startOf a) evs"
proof -
  have ordered: "startOf y \<le> endOf y" if "y \<in> set evs" for y
    using isValidEventBlock_True[of y] assms(1) that by (auto simp: startOf_def endOf_def)
  then have "sorted_wrt (\<lambda>a b. endOf a < startOf b) (sort_key startOf evs)"
    using consecutiveOk_chain[of "sort_key startOf evs"] assms(2) by simp
  then have "sorted_wrt (\<lambda>a b. endOf a < startOf b \<or> endOf b < startOf a) (sort_key startOf evs)"
    by (rule sorted_wrt_mono_rel[rotated]) simp
  then show ?thesis
    by (subst (asm) sorted_wrt_sort_key_sym) auto
qed

text \<open>
  A value that passes \<^verbatim>\<open>validateRows\<close> has a typed view: \<open>ROWS\<close> rows without holes,
  of events within bounds that have a title, no two events of a row overlapping.
\<close>

lemma valid_event_typed:
  assumes "isValidEventBlock ev = Inr True"
  shows "\<exists>b. asEventBlock ev = Some b \<and> inBounds b \<and> title b \<noteq> None
           \<and> start b = startOf ev \<and> end' b = endOf ev"
  using isValidEventBlock_True[OF assms]
  by (auto simp: asEventBlock_def inBounds_def startOf_def endOf_def)

lemma valid_row_typed:
  assumes valid: "\<forall>ev\<in>set evs. isValidEventBlock ev = Inr True"
    and ok: "consecutiveOk (sort_key startOf evs)"
  shows "\<exists>r. asRow (JArr evs) = Some r \<and> list_all hasTitle r
           \<and> list_all inBounds (present r) \<and> rowNoOverlap (present r)"
proof -
  let ?g = "\<lambda>ev. the (asEventBlock ev)"
  have typed: "asEventBlock ev = Some (?g ev) \<and> inBounds (?g ev) \<and> title (?g ev) \<noteq> None
               \<and> start (?g ev) = startOf ev \<and> end' (?g ev) = endOf ev" if "ev \<in> set evs" for ev
    using valid_event_typed[of ev] valid that by auto
  then have "\<forall>ev\<in>set evs. \<exists>y. asEventBlock ev = Some y" by blast
  from allSome_map[OF this] have row: "asRow (JArr evs) = Some (map Some (map ?g evs))" by simp
  have "title (?g ev) \<noteq> None" if "ev \<in> set evs" for ev
    using typed[OF that] by blast
  then have titles: "list_all hasTitle (map Some (map ?g evs))"
    by (simp add: list_all_iff hasTitle_def)
  have bounds: "list_all inBounds (map ?g evs)"
    using typed by (auto simp: list_all_iff)
  have "sorted_wrt (\<lambda>a b. \<not> overlap (?g a) (?g b)) evs"
    using valid_row_apart[OF valid ok]
    by (rule sorted_wrt_mono_rel[rotated]) (use typed in \<open>auto simp: overlap_def rangeOverlaps_def\<close>)
  then have apart: "rowNoOverlap (map ?g evs)"
    by (simp add: rowNoOverlap_sorted_wrt sorted_wrt_map)
  have events: "present (map Some (map ?g evs)) = map ?g evs"
    by (rule present_map_Some)
  show ?thesis
  proof (intro exI conjI)
    show "asRow (JArr evs) = Some (map Some (map ?g evs))" by (rule row)
    show "list_all hasTitle (map Some (map ?g evs))" by (rule titles)
    show "list_all inBounds (present (map Some (map ?g evs)))"
      unfolding events by (rule bounds)
    show "rowNoOverlap (present (map Some (map ?g evs)))"
      unfolding events by (rule apart)
  qed
qed

lemma validateRows_typed:
  assumes "validateRows j = Inr True"
  shows "\<exists>rws. asRows j = Some rws \<and> length rws = ROWS \<and> allInBounds rws
           \<and> list_all (list_all hasTitle) rws
           \<and> list_all (\<lambda>r. rowNoOverlap (present r)) rws"
proof -
  from validateRows_True[OF assms] obtain rs where rs: "j = JArr rs" "length rs = ROWS"
    "checkRows rs = Inr True" "list_all (\<lambda>r. consecutiveOk (sort_key startOf (elems r))) rs"
    by blast
  let ?h = "\<lambda>r. the (asRow r)"
  have typed: "asRow r = Some (?h r) \<and> list_all hasTitle (?h r)
               \<and> list_all inBounds (present (?h r)) \<and> rowNoOverlap (present (?h r))"
    if "r \<in> set rs" for r
  proof -
    from checkRows_True[OF rs(3) that] obtain evs where evs: "r = JArr evs"
      "checkEvents evs = Inr True" by blast
    then have "\<forall>ev\<in>set evs. isValidEventBlock ev = Inr True"
      using checkEvents_True by blast
    moreover from rs(4) that evs have "consecutiveOk (sort_key startOf evs)"
      by (auto simp: list_all_iff)
    ultimately show ?thesis using valid_row_typed[of evs] evs by auto
  qed
  then have "\<forall>r\<in>set rs. \<exists>y. asRow r = Some y" by blast
  from allSome_map[OF this] rs(1) have "asRows j = Some (map ?h rs)" by simp
  moreover have "allInBounds (map ?h rs)" "list_all (list_all hasTitle) (map ?h rs)"
    "list_all (\<lambda>r. rowNoOverlap (present r)) (map ?h rs)"
    using typed by (auto simp: allInBounds_def list_all_iff)
  ultimately show ?thesis using rs(2) by simp
qed

text \<open>
  Loading and importing never fail: the rows they store have passed
  \<^verbatim>\<open>validateRows\<close>, so they have a typed view.
\<close>

lemma handleManualLoad_total: "\<exists>st'. handleManualLoad raw st = Inr st'"
proof (cases "loadFromStorage raw")
  case None
  then show ?thesis by (simp add: handleManualLoad_def)
next
  case (Some sched)
  then have valid: "validateRows (getProp sched ''rows'') = Inr True"
    by (auto simp: loadFromStorage_def split: stored.splits if_splits sum.splits)
  with validateRows_typed[OF valid] Some show ?thesis
    by (auto simp: handleManualLoad_def)
qed

lemma handleImportFile_total: "\<exists>st'. handleImportFile raw c st = Inr st'"
proof (cases raw)
  case (Parsed parsed)
  show ?thesis
  proof (cases "validateRows (getProp parsed ''rows'') = Inr True")
    case True
    with validateRows_typed[OF True] Parsed show ?thesis
      by (auto simp: handleImportFile_def)
  next
    case False
    with Parsed show ?thesis
      by (cases "validateRows (getProp parsed ''rows'')") (auto simp: handleImportFile_def)
  qed
qed (simp_all add: handleImportFile_def)

section \<open>Claims about saving, loading and validation\<close>

text \<open>
  Claim C4 (round trip). For rows that satisfy the Row invariants, what
  \<^verbatim>\<open>saveToStorage\<close> writes is accepted by \<^verbatim>\<open>loadFromStorage\<close> as it stands, the rows
  of the accepted payload are exactly the rows that were saved, and loading puts
  those rows into the state.
\<close>

theorem save_load_round_trip:
  assumes "rowInvariants rws"
  shows "loadFromStorage (saveToStorage now rws) = Some (jsSchedule (makeSchedule now rws))
       \<and> asRows (getProp (jsSchedule (makeSchedule now rws)) ''rows'') = Some rws
       \<and> handleManualLoad (saveToStorage now rws) st = Inr (st\<lparr>events := rws\<rparr>)"
proof -
  from assms have proper: "list_all (list_all properEvent) rws"
    by (auto simp: rowInvariants_def list_all_iff)
  have rws: "getProp (jsSchedule (makeSchedule now rws)) ''rows'' = jsRows rws"
    and ver: "getProp (jsSchedule (makeSchedule now rws)) ''version'' = JInt 1"
    by (simp_all add: jsSchedule_def makeSchedule_def)
  have load: "loadFromStorage (saveToStorage now rws) = Some (jsSchedule (makeSchedule now rws))"
    using validateRows_jsRows[OF assms] rws ver
    by (simp add: loadFromStorage_def saveToStorage_def) (simp add: jsSchedule_def)
  moreover have "handleManualLoad (saveToStorage now rws) st = Inr (st\<lparr>events := rws\<rparr>)"
    using load validateRows_jsRows[OF assms] rws asRows_jsRows[OF proper]
    by (simp add: handleManualLoad_def)
  ultimately show ?thesis using rws asRows_jsRows[OF proper] by simp
qed

theorem save_load_round_trip_witness:
  "rowInvariants [[Some \<lparr>start = 16, end' = 19, title = Some ''Standup''\<rparr>,
                   Some \<lparr>start = 20, end' = 25, title = Some ''Lunch''\<rparr>], [], []]
   \<and> loadFromStorage (saveToStorage ''2024-05-01T09:00:00.000Z''
         [[Some \<lparr>start = 16, end' = 19, title = Some ''Standup''\<rparr>,
           Some \<lparr>start = 20, end' = 25, title = Some ''Lunch''\<rparr>], [], []])
       = Some (jsSchedule (makeSchedule ''2024-05-01T09:00:00.000Z''
           [[Some \<lparr>start = 16, end' = 19, title = Some ''Standup''\<rparr>,
             Some \<lparr>start = 20, end' = 25, title = Some ''Lunch''\<rparr>], [], []]))
   \<and> asRows (getProp (jsSchedule (makeSchedule ''2024-05-01T09:00:00.000Z''
           [[Some \<lparr>start = 16, end' = 19, title = Some ''Standup''\<rparr>,
             Some \<lparr>start = 20, end' = 25, title = Some ''Lunch''\<rparr>], [], []])) ''rows'')
       = Some [[Some \<lparr>start = 16, end' = 19, title = Some ''Standup''\<rparr>,
                Some \<lparr>start = 20, end' = 25, title = Some ''Lunch''\<rparr>], [], []]"
proof -
  have inv: "rowInvariants [[Some \<lparr>start = 16, end' = 19, title = Some ''Standup''\<rparr>,
                             Some \<lparr>start = 20, end' = 25, title = Some ''Lunch''\<rparr>], [], []]"
    by code_simp
  from save_load_round_trip[OF inv, of "''2024-05-01T09:00:00.000Z''" initialState] inv
  show ?thesis by simp
qed

text \<open>
  Claim C5 (rejection). A parsed payload is rejected, and loading or importing it
  leaves the state as it was, in each of three cases: its \<^verbatim>\<open>version\<close> is 2; one of
  its rows holds an event with start 5 and end 3; one of its rows holds both an
  event from 0 to 5 and an event from 5 to 8.
\<close>

theorem rejected_payloads:
  "(getProp p ''version'' = JInt 2 \<longrightarrow> rejected p st)
   \<and> ((\<exists>evs\<in>set (payloadRows p). \<exists>ev\<in>set evs. holdsInterval ev 5 3) \<longrightarrow> rejected p st)
   \<and> ((\<exists>evs\<in>set (payloadRows p). \<exists>a\<in>set evs. \<exists>b\<in>set evs.
          holdsInterval a 0 5 \<and> holdsInterval b 5 8) \<longrightarrow> rejected p st)"
proof (intro conjI impI)
  assume "getProp p ''version'' = JInt 2"
  then show "rejected p st" using rejected_unless_valid by simp
next
  assume "\<exists>evs\<in>set (payloadRows p). \<exists>ev\<in>set evs. holdsInterval ev 5 3"
  then obtain evs ev where ev: "evs \<in> set (payloadRows p)" "ev \<in> set evs" "holdsInterval ev 5 3"
    by blast
  have "validateRows (getProp p ''rows'') \<noteq> Inr True"
  proof
    assume "validateRows (getProp p ''rows'') = Inr True"
    from valid_payload_rows[OF this ev(1)] ev(2) have "isValidEventBlock ev = Inr True" by blast
    from isValidEventBlock_True[OF this] ev(3) show False by (auto simp: holdsInterval_def)
  qed
  then show "rejected p st" using rejected_unless_valid by simp
next
  assume "\<exists>evs\<in>set (payloadRows p). \<exists>a\<in>set evs. \<exists>b\<in>set evs.
            holdsInterval a 0 5 \<and> holdsInterval b 5 8"
  then obtain evs a b where ab: "evs \<in> set (payloadRows p)" "a \<in> set evs" "b \<in> set evs"
    "holdsInterval a 0 5" "holdsInterval b 5 8"
    by blast
  have "validateRows (getProp p ''rows'') \<noteq> Inr True"
  proof
    assume "validateRows (getProp p ''rows'') = Inr True"
    from valid_payload_rows[OF this ab(1)] valid_row_apart
    have apart: "sorted_wrt (\<lambda>a b. endOf a < startOf b \<or> endOf b < startOf a) evs" by blast
    from ab(4,5) have "a \<noteq> b" by (auto simp: holdsInterval_def)
    from sorted_wrt_either[OF apart ab(2,3) this] ab(4,5) show False
      by (auto simp: holdsInterval_def startOf_def endOf_def)
  qed
  then show "rejected p st" using rejected_unless_valid by simp
qed

theorem rejected_payloads_witness:
  "rejected (JObj [(''version'', JInt 2), (''savedAt'', JStr ''2024-05-01T09:00:00.000Z''),
                   (''rows'', jsRows [[], [], []])]) initialState
   \<and> rejected (JObj [(''version'', JInt 1), (''savedAt'', JStr ''2024-05-01T09:00:00.000Z''),
                     (''rows'', jsRows [[Some \<lparr>start = 5, end' = 3, title = Some ''A''\<rparr>],
                                        [], []])])
        initialState
   \<and> rejected (JObj [(''version'', JInt 1), (''savedAt'', JStr ''2024-05-01T09:00:00.000Z''),
                     (''rows'', jsRows [[Some \<lparr>start = 0, end' = 5, title = Some ''A''\<rparr>,
                                         Some \<lparr>start = 5, end' = 8, title = Some ''B''\<rparr>],
                                        [], []])])
        initialState"
  using rejected_payloads
      [of "JObj [(''version'', JInt 2), (''savedAt'', JStr ''2024-05-01T09:00:00.000Z''),
                 (''rows'', jsRows [[], [], []])]" initialState]
    rejected_payloads
      [of "JObj [(''version'', JInt 1), (''savedAt'', JStr ''2024-05-01T09:00:00.000Z''),
                 (''rows'', jsRows [[Some \<lparr>start = 5, end' = 3, title = Some ''A''\<rparr>],
                                    [], []])]"
          initialState]
    rejected_payloads
      [of "JObj [(''version'', JInt 1), (''savedAt'', JStr ''2024-05-01T09:00:00.000Z''),
                 (''rows'', jsRows [[Some \<lparr>start = 0, end' = 5, title = Some ''A''\<rparr>,
                                     Some \<lparr>start = 5, end' = 8, title = Some ''B''\<rparr>],
                                    [], []])]"
          initialState]
  by (simp add: payloadRows_def holdsInterval_def jsRows_def jsEntry_def jsEvent_def)

text \<open>
  Claim C6 (what validation checks), as the code has it. \<^verbatim>\<open>validateRows\<close> returns
  true only for \<open>ROWS\<close> rows in which every event has integer \<^verbatim>\<open>start\<close> and
  \<^verbatim>\<open>end\<close> with \<open>0 \<le> start \<le> end < TOTAL_SLOTS\<close> and a title that is a string. The
  content of the title is not looked at.
\<close>

theorem validate_checks_bounds_only:
  assumes "validateRows j = Inr True"
  shows "\<exists>rws. asRows j = Some rws \<and> length rws = ROWS \<and> allInBounds rws
           \<and> list_all (list_all hasTitle) rws"
  using validateRows_typed[OF assms] by blast

theorem validate_checks_bounds_only_witness:
  "validateRows (jsRows [[Some \<lparr>start = 16, end' = 19, title = Some ''Standup''\<rparr>], [], []])
     = Inr True
   \<and> asRows (jsRows [[Some \<lparr>start = 16, end' = 19, title = Some ''Standup''\<rparr>], [], []])
       = Some [[Some \<lparr>start = 16, end' = 19, title = Some ''Standup''\<rparr>], [], []]
   \<and> length [[Some \<lparr>start = 16, end' = 19, title = Some ''Standup''\<rparr>], [], []] = ROWS
   \<and> allInBounds [[Some \<lparr>start = 16, end' = 19, title = Some ''Standup''\<rparr>], [], []]
   \<and> list_all (list_all hasTitle)
       [[Some \<lparr>start = 16, end' = 19, title = Some ''Standup''\<rparr>], [], []]"
proof -
  have valid: "validateRows (jsRows [[Some \<lparr>start = 16, end' = 19, title = Some ''Standup''\<rparr>],
                                     [], []]) = Inr True"
    by code_simp
  have view: "asRows (jsRows [[Some \<lparr>start = 16, end' = 19, title = Some ''Standup''\<rparr>], [], []])
       = Some [[Some \<lparr>start = 16, end' = 19, title = Some ''Standup''\<rparr>], [], []]"
    by code_simp
  from validate_checks_bounds_only[OF valid] valid view show ?thesis
    by auto
qed

text \<open>
  Claim C6 as worded fails: rows holding an event whose title is empty, or is made
  of spaces only, pass \<^verbatim>\<open>validateRows\<close>.
\<close>

theorem validate_accepts_blank_titles:
  "validateRows (jsRows [[Some \<lparr>start = 0, end' = 1, title = Some ''''\<rparr>], [], []]) = Inr True
   \<and> trim '''' = ''''
   \<and> validateRows (jsRows [[Some \<lparr>start = 0, end' = 1, title = Some ''  ''\<rparr>], [], []])
       = Inr True
   \<and> trim ''  '' = ''''"
  by code_simp

section \<open>The bounds of committed events\<close>

text \<open>
  The resolver always returns a range within bounds, whatever it is given; the
  write-back puts one event into the row, at a place of the row or past its end, and
  keeps all others.
\<close>

lemma settled_inBounds:
  "settled p = (s, e) \<Longrightarrow> 0 \<le> s \<and> s \<le> e \<and> e < TOTAL_SLOTS"
  by (cases p) (auto simp: clamp_def TOTAL_SLOTS_eq Let_def split: if_splits)

lemma allowedRangeFor_inBounds:
  "allowedRangeFor evs rowIdx x ps pe = Inr (s, e) \<Longrightarrow> 0 \<le> s \<and> s \<le> e \<and> e < TOTAL_SLOTS"
  using settled_inBounds by (auto simp: allowedRangeFor_def split: if_splits)

lemma present_append: "present (xs @ ys) = present xs @ present ys"
  by (induction xs rule: present.induct) simp_all

lemma present_replicate_None: "present (replicate n None) = []"
  by (induction n) simp_all

lemma set_present_setAt: "set (present (setAt xs i v)) \<subseteq> insert v (set (present xs))"
proof (cases "i < length xs")
  case True
  then show ?thesis
    using set_update_subset_insert[of xs i "Some v"] by (auto simp: setAt_def set_present)
next
  case False
  then show ?thesis
    by (simp add: setAt_def present_append present_replicate_None)
qed

lemma list_all_update: "list_all Q xs \<Longrightarrow> Q x \<Longrightarrow> list_all Q (xs[i := x])"
  using set_update_subset_insert[of xs i x] by (auto simp: list_all_iff)

lemma allInBounds_update:
  "allInBounds evs \<Longrightarrow> list_all inBounds (present r) \<Longrightarrow> allInBounds (evs[i := r])"
  using set_update_subset_insert[of evs i r] by (auto simp: allInBounds_def list_all_iff)

lemma allInBounds_nth:
  "allInBounds evs \<Longrightarrow> i < length evs \<Longrightarrow> list_all inBounds (present (evs ! i))"
  by (simp add: allInBounds_def list_all_length)

lemma applyTempUpdate_inBounds:
  assumes "allInBounds prev" and "0 \<le> s \<and> s \<le> e \<and> e < TOTAL_SLOTS"
    and "applyTempUpdate rowIdx eventIdx s e prev = Inr evs"
  shows "allInBounds evs"
proof -
  from assms(3) obtain updated where r: "rowIdx < length prev"
    and evs: "evs = prev[rowIdx := setAt (prev ! rowIdx) eventIdx updated]"
    and new: "start updated = s" "end' updated = e"
    by (auto simp: applyTempUpdate_def Let_def split: if_splits option.splits)
  from new assms(2) have "inBounds updated" by (simp add: inBounds_def)
  moreover from assms(1) r have "list_all inBounds (present (prev ! rowIdx))"
    by (rule allInBounds_nth)
  ultimately have "list_all inBounds (present (setAt (prev ! rowIdx) eventIdx updated))"
    using set_present_setAt[of "prev ! rowIdx" eventIdx updated] by (auto simp: list_all_iff)
  with assms(1) show ?thesis
    unfolding evs by (rule allInBounds_update)
qed

lemma onMouseDownCell_events:
  "onMouseDownCell rowIdx slotIdx st = Inr st' \<Longrightarrow> events st' = events st"
  by (auto simp: onMouseDownCell_def Let_def split: sum.splits option.splits)

lemma onMouseDownCell_selection:
  assumes "onMouseDownCell rowIdx slotIdx st = Inr st'" and "selectionInGrid st"
    and "0 \<le> slotIdx \<and> slotIdx < TOTAL_SLOTS"
  shows "selectionInGrid st'"
  using assms
  by (auto simp: onMouseDownCell_def Let_def selectionInGrid_def split: sum.splits option.splits)

lemma onMouseEnterCell_inBounds:
  assumes "onMouseEnterCell rowIdx slotIdx st = Inr st'" and "allInBounds (events st)"
  shows "allInBounds (events st')"
proof (cases "events st' = events st")
  case True
  with assms show ?thesis by simp
next
  case False
  with assms(1) have "\<exists>x ps pe s e i.
    allowedRangeFor (events st) rowIdx x ps pe = Inr (s, e)
    \<and> applyTempUpdate rowIdx i s e (events st) = Inr (events st')"
    by (fastforce simp: onMouseEnterCell_def
        split: if_splits option.splits sum.splits prod.splits)
  with assms(2) show ?thesis
    using allowedRangeFor_inBounds applyTempUpdate_inBounds by blast
qed

lemma onMouseEnterCell_selection:
  assumes "onMouseEnterCell rowIdx slotIdx st = Inr st'" and "selectionInGrid st"
    and "0 \<le> slotIdx \<and> slotIdx < TOTAL_SLOTS"
  shows "selectionInGrid st'"
  using assms
  by (auto simp: onMouseEnterCell_def selectionInGrid_def
      split: if_splits option.splits sum.splits prod.splits)

text \<open>
  The create gesture commits the smaller and the larger of two remembered slots,
  both of which are slots of the grid.
\<close>

lemma handleMouseUp_inBounds:
  assumes up: "handleMouseUp answer st = Inr st'" and bounds: "allInBounds (events st)"
    and sel: "selectionInGrid st"
  shows "allInBounds (events st') \<and> selectionInGrid st'"
proof -
  have sel': "selectionInGrid st'"
    using up by (auto simp: handleMouseUp_def Let_def selectionInGrid_def
        split: if_splits option.splits bool.splits)
  show ?thesis
  proof (cases "events st' = events st")
    case True
    with bounds sel' show ?thesis by simp
  next
    case False
    with up obtain sRow sStart sCurrent ttl where new:
      "selectStart st = Some sStart" "selectCurrent st = Some sCurrent" "sRow < length (events st)"
      "events st' = (events st)[sRow := (events st ! sRow) @
          [Some \<lparr>start = min sStart sCurrent, end' = max sStart sCurrent, title = ttl\<rparr>]]"
      by (auto simp: handleMouseUp_def Let_def split: if_splits option.splits bool.splits)
    let ?ev = "\<lparr>start = min sStart sCurrent, end' = max sStart sCurrent, title = ttl\<rparr>"
    from sel new(1,2) have "inBounds ?ev"
      by (auto simp: selectionInGrid_def inBounds_def)
    moreover from bounds new(3) have "list_all inBounds (present (events st ! sRow))"
      by (rule allInBounds_nth)
    ultimately have "list_all inBounds (present ((events st ! sRow) @ [Some ?ev]))"
      by (simp add: present_append)
    with bounds have "allInBounds (events st')"
      unfolding new(4) by (rule allInBounds_update)
    with sel' show ?thesis by simp
  qed
qed

lemma present_without:
  "list_all P (present r) \<Longrightarrow> list_all P (present (take n r @ drop (Suc n) r))"
  by (auto simp: list_all_iff set_present dest: in_set_takeD in_set_dropD)

lemma removeEvent_inBounds:
  assumes "allInBounds (events st)"
  shows "allInBounds (events (removeEvent rowIdx eventIdx st))"
proof -
  let ?g = "\<lambda>p. if fst p \<noteq> rowIdx then snd p
                else take eventIdx (snd p) @ drop (Suc eventIdx) (snd p)"
  have ev: "events (removeEvent rowIdx eventIdx st) = map ?g (enumerate 0 (events st))"
    by (simp add: removeEvent_def)
  have "list_all inBounds (present (?g p))" if "p \<in> set (enumerate 0 (events st))" for p
  proof -
    from that have "fst p < length (events st)" "events st ! fst p = snd p"
      by (simp_all add: in_set_enumerate_eq)
    then have "snd p \<in> set (events st)" using nth_mem by force
    with assms have "list_all inBounds (present (snd p))"
      by (simp add: allInBounds_def list_all_iff)
    then show ?thesis using present_without by auto
  qed
  then have "\<forall>p\<in>set (enumerate 0 (events st)). list_all inBounds (present (?g p))" by blast
  then have "list_all (\<lambda>p. list_all inBounds (present (?g p))) (enumerate 0 (events st))"
    by (simp only: Ball_set)
  then show ?thesis unfolding allInBounds_def ev by (simp only: list.pred_map comp_def)
qed

lemma clearRow_inBounds:
  "allInBounds (events st) \<Longrightarrow> allInBounds (events (clearRow rowIdx c st))"
  by (auto simp: clearRow_def allInBounds_def list_all_iff in_set_enumerate_eq)

lemma handleClearAll_inBounds:
  "allInBounds (events st) \<Longrightarrow> allInBounds (events (handleClearAll c st))"
  by (auto simp: handleClearAll_def allInBounds_def list_all_iff)

lemma handleManualLoad_inBounds:
  assumes "handleManualLoad raw st = Inr st'" and "allInBounds (events st)"
  shows "allInBounds (events st') \<and> selectStart st' = selectStart st
         \<and> selectCurrent st' = selectCurrent st"
proof (cases "st' = st")
  case True
  with assms show ?thesis by simp
next
  case False
  with assms(1) obtain j rws where "validateRows j = Inr True" "asRows j = Some rws"
    "st' = st\<lparr>events := rws\<rparr>"
    by (auto simp: handleManualLoad_def split: option.splits sum.splits if_splits)
  with validateRows_typed[of j] show ?thesis by auto
qed

lemma handleImportFile_inBounds:
  assumes "handleImportFile raw c st = Inr st'" and "allInBounds (events st)"
  shows "allInBounds (events st') \<and> selectStart st' = selectStart st
         \<and> selectCurrent st' = selectCurrent st"
proof (cases "st' = st")
  case True
  with assms show ?thesis by simp
next
  case False
  with assms(1) obtain j rws where "validateRows j = Inr True" "asRows j = Some rws"
    "st' = st\<lparr>events := rws\<rparr>"
    by (auto simp: handleImportFile_def split: stored.splits option.splits sum.splits if_splits)
  with validateRows_typed[of j] show ?thesis by auto
qed

text \<open>Every action keeps the events within bounds and the remembered slots on the grid.\<close>

lemma step_inBounds:
  assumes "step st a = Inr st'" and "slotInGrid a"
    and "allInBounds (events st)" and "selectionInGrid st"
  shows "allInBounds (events st') \<and> selectionInGrid st'"
proof (cases a)
  case (MouseDown r k)
  with assms show ?thesis
    using onMouseDownCell_events[of r k st st'] onMouseDownCell_selection[of r k st st'] by simp
next
  case (MouseEnter r k)
  with assms show ?thesis
    using onMouseEnterCell_inBounds[of r k st st'] onMouseEnterCell_selection[of r k st st'] by simp
next
  case (MouseUp answer)
  with assms show ?thesis using handleMouseUp_inBounds[of answer st st'] by simp
next
  case (RemoveEvent r i)
  with assms show ?thesis
    using removeEvent_inBounds[of st r i] by (auto simp: selectionInGrid_def removeEvent_def)
next
  case (ClearRow r c)
  with assms show ?thesis
    using clearRow_inBounds[of st r c] by (auto simp: selectionInGrid_def clearRow_def)
next
  case (ClearAll c)
  with assms show ?thesis
    using handleClearAll_inBounds[of st c] by (auto simp: selectionInGrid_def handleClearAll_def)
next
  case (ManualLoad raw)
  with assms show ?thesis
    using handleManualLoad_inBounds[of raw st st'] by (simp add: selectionInGrid_def)
next
  case (ImportFile raw c)
  with assms show ?thesis
    using handleImportFile_inBounds[of raw c st st'] by (simp add: selectionInGrid_def)
qed

lemma run_inBounds:
  "run st acts = Inr st' \<Longrightarrow> list_all slotInGrid acts
   \<Longrightarrow> allInBounds (events st) \<Longrightarrow> selectionInGrid st
   \<Longrightarrow> allInBounds (events st') \<and> selectionInGrid st'"
proof (induction acts arbitrary: st)
  case Nil
  then show ?case by simp
next
  case (Cons a acts)
  from Cons.prems(1) obtain mid where mid: "step st a = Inr mid" "run mid acts = Inr st'"
    by (cases "step st a") auto
  from step_inBounds[OF mid(1)] Cons.prems have "allInBounds (events mid) \<and> selectionInGrid mid"
    by simp
  with Cons.IH[OF mid(2)] Cons.prems(2) show ?case by simp
qed

lemma initialState_inBounds: "allInBounds (events initialState) \<and> selectionInGrid initialState"
  by (simp add: initialState_def allInBounds_def selectionInGrid_def list_all_iff)

text \<open>
  Claim C2 (bounds). Start from the empty schedule and let the user act in any
  order: pointer actions on slots of the grid, deletions, clearing, loading and
  importing. In every state so reached, every event present in any row satisfies
  \<open>0 \<le> start \<le> end < TOTAL_SLOTS\<close>. That holds as well for the event without title
  that a write-back leaves behind when the event being dragged has been deleted.
\<close>

theorem bounds_invariant:
  assumes "list_all slotInGrid acts" and "run initialState acts = Inr st'"
  shows "allInBounds (events st')"
  using run_inBounds[OF assms(2,1)] initialState_inBounds by simp

theorem bounds_invariant_witness:
  "list_all slotInGrid [MouseDown 0 5, MouseUp (Some ''A''), MouseDown 0 5,
                        RemoveEvent 0 0, MouseEnter 0 7]
   \<and> run initialState [MouseDown 0 5, MouseUp (Some ''A''), MouseDown 0 5,
                        RemoveEvent 0 0, MouseEnter 0 7]
       = Inr \<lparr>events = [[Some \<lparr>start = 7, end' = 7, title = None\<rparr>], [], []],
              isSelecting = False, selectRow = None, selectStart = None, selectCurrent = None,
              drag = \<lparr>mode = ModeMove, row = Some 0, eventIndex = Some 0, anchorSlot = Some 5,
                      initialStart = Some 5, initialEnd = Some 5\<rparr>\<rparr>
   \<and> allInBounds [[Some \<lparr>start = 7, end' = 7, title = None\<rparr>], [], []]"
proof -
  have acts: "list_all slotInGrid [MouseDown 0 5, MouseUp (Some ''A''), MouseDown 0 5,
                                   RemoveEvent 0 0, MouseEnter 0 7]"
    by (simp add: TOTAL_SLOTS_eq)
  have result: "run initialState [MouseDown 0 5, MouseUp (Some ''A''), MouseDown 0 5,
                                  RemoveEvent 0 0, MouseEnter 0 7]
       = Inr \<lparr>events = [[Some \<lparr>start = 7, end' = 7, title = None\<rparr>], [], []],
              isSelecting = False, selectRow = None, selectStart = None, selectCurrent = None,
              drag = \<lparr>mode = ModeMove, row = Some 0, eventIndex = Some 0, anchorSlot = Some 5,
                      initialStart = Some 5, initialEnd = Some 5\<rparr>\<rparr>"
    by code_simp
  from bounds_invariant[OF acts result] acts result show ?thesis by simp
qed

text \<open>
  Going on after a throw reaches no further state: what \<^const>\<open>carryOn\<close> arrives at
  is what \<^const>\<open>run\<close> arrives at on the actions that did not throw. So the bounds
  hold on that reading of a run too, with no condition on the handlers' results.
\<close>

lemma carryOn_is_run:
  "\<exists>kept. set kept \<subseteq> set acts \<and> run st kept = Inr (carryOn st acts)"
proof (induction acts arbitrary: st)
  case Nil
  have "run st [] = Inr (carryOn st [])" by simp
  then show ?case by (metis empty_set subset_refl)
next
  case (Cons a acts)
  show ?case
  proof (cases "step st a")
    case (Inl err)
    from Cons.IH[of st] obtain kept where "set kept \<subseteq> set acts"
      "run st kept = Inr (carryOn st acts)" by blast
    with Inl show ?thesis by (intro exI[of _ kept]) auto
  next
    case (Inr mid)
    from Cons.IH[of mid] obtain kept where "set kept \<subseteq> set acts"
      "run mid kept = Inr (carryOn mid acts)" by blast
    with Inr show ?thesis by (intro exI[of _ "a # kept"]) auto
  qed
qed

lemma bounds_hold_past_throws:
  assumes "list_all slotInGrid acts"
  shows "allInBounds (events (carryOn initialState acts))"
proof -
  from carryOn_is_run[of acts initialState] obtain kept where kept: "set kept \<subseteq> set acts"
    "run initialState kept = Inr (carryOn initialState acts)" by blast
  from kept(1) assms have "list_all slotInGrid kept" by (auto simp: list_all_iff)
  from run_inBounds[OF kept(2) this] initialState_inBounds show ?thesis by simp
qed

section \<open>Pointer gestures run without error\<close>

text \<open>
  From a well-shaped state, pointer actions on the rows of the grid never throw and
  never make a hole: the write-back of a gesture goes to a place of the row.
\<close>

lemma findIndex_no_throw:
  "\<forall>x\<in>set xs. \<exists>b. P x = Inr b \<Longrightarrow> \<exists>found. findIndex P xs = Inr found"
proof (induction xs)
  case Nil
  then show ?case by simp
next
  case (Cons x xs)
  then obtain b found where "P x = Inr b" "findIndex P xs = Inr found" by auto
  then show ?case by simp
qed

lemma onMouseDownCell_total:
  assumes "wellShaped st" and "rowIdx < ROWS"
  shows "\<exists>st'. onMouseDownCell rowIdx slotIdx st = Inr st' \<and> wellShaped st'"
proof -
  from assms have r: "rowIdx < length (events st)"
    and full: "\<forall>entry\<in>set (events st ! rowIdx). entry \<noteq> None"
    by (auto simp: wellShaped_def list_all_iff)
  then have "\<forall>entry\<in>set (events st ! rowIdx). \<exists>b. covers slotIdx entry = Inr b"
    by (auto simp: covers_def)
  from findIndex_no_throw[OF this] obtain found where
    found: "findIndex (covers slotIdx) (events st ! rowIdx) = Inr found" by blast
  show ?thesis
  proof (cases found)
    case None
    with found r assms show ?thesis
      by (auto simp: onMouseDownCell_def findEventAt_def wellShaped_def split: option.splits)
  next
    case (Some i)
    with found findIndex_Some[of "covers slotIdx" "events st ! rowIdx" i]
    have i: "i < length (events st ! rowIdx)" by simp
    with full obtain evt where "events st ! rowIdx ! i = Some evt"
      using nth_mem by fastforce
    with Some found r i assms show ?thesis
      by (auto simp: onMouseDownCell_def findEventAt_def wellShaped_def Let_def
          split: option.splits)
  qed
qed

lemma onMouseEnterCell_total:
  assumes "wellShaped st"
  shows "\<exists>st'. onMouseEnterCell rowIdx slotIdx st = Inr st' \<and> wellShaped st'"
proof (cases "isSelecting st \<and> Some rowIdx = selectRow st")
  case True
  with assms show ?thesis by (auto simp: onMouseEnterCell_def wellShaped_def split: option.splits)
next
  case sel: False
  show ?thesis
  proof (cases "mode (drag st) \<noteq> ModeNone \<and> row (drag st) = Some rowIdx")
    case False
    with sel assms show ?thesis by (auto simp: onMouseEnterCell_def)
  next
    case dragging: True
    show ?thesis
    proof (cases "eventIndex (drag st)")
      case None
      with sel dragging assms show ?thesis by (auto simp: onMouseEnterCell_def)
    next
      case (Some i)
      with dragging assms have r: "rowIdx < length (events st)"
        and i: "i < length (events st ! rowIdx)"
        by (auto simp: wellShaped_def)
      show ?thesis
      proof (cases "\<exists>iStart iEnd anchor p. initialStart (drag st) = Some iStart
                      \<and> initialEnd (drag st) = Some iEnd \<and> anchorSlot (drag st) = Some anchor
                      \<and> dragProposal (mode (drag st)) iStart iEnd anchor slotIdx = Some p")
        case False
        with sel dragging Some assms show ?thesis
          by (auto simp: onMouseEnterCell_def split: option.splits)
      next
        case True
        then obtain iStart iEnd anchor ps pe where snap:
          "initialStart (drag st) = Some iStart" "initialEnd (drag st) = Some iEnd"
          "anchorSlot (drag st) = Some anchor"
          "dragProposal (mode (drag st)) iStart iEnd anchor slotIdx = Some (ps, pe)"
          by (metis surj_pair)
        obtain s e where allowed:
          "allowedRangeFor (events st) rowIdx (Some i) ps pe = Inr (s, e)"
          using r by (cases "settled (snapped (events st ! rowIdx) (Some i) ps pe)")
            (simp add: allowedRangeFor_def)
        obtain evs where upd: "applyTempUpdate rowIdx i s e (events st) = Inr evs"
          and evs: "\<exists>v. evs = (events st)[rowIdx := (events st ! rowIdx)[i := Some v]]"
          using r i by (auto simp: applyTempUpdate_def setAt_def Let_def)
        have res: "onMouseEnterCell rowIdx slotIdx st = Inr (st\<lparr>events := evs\<rparr>)"
          using sel dragging Some snap allowed upd by (auto simp: onMouseEnterCell_def)
        from evs obtain v where v: "evs = (events st)[rowIdx := (events st ! rowIdx)[i := Some v]]"
          by blast
        have full: "list_all (list_all (\<lambda>entry. entry \<noteq> None)) evs"
        proof -
          from assms have old: "list_all (list_all (\<lambda>entry. entry \<noteq> None)) (events st)"
            by (simp add: wellShaped_def)
          with r have "list_all (\<lambda>entry. entry \<noteq> None) (events st ! rowIdx)"
            by (simp add: list_all_length)
          then have "list_all (\<lambda>entry. entry \<noteq> None) ((events st ! rowIdx)[i := Some v])"
            by (rule list_all_update) simp
          with old show ?thesis
            unfolding v by (rule list_all_update)
        qed
        have "wellShaped (st\<lparr>events := evs\<rparr>)"
          using assms r full unfolding v
          by (auto simp: wellShaped_def nth_list_update split: option.splits)
        with res show ?thesis by simp
      qed
    qed
  qed
qed

lemma handleMouseUp_total:
  assumes "wellShaped st"
  shows "\<exists>st'. handleMouseUp answer st = Inr st' \<and> wellShaped st'"
proof -
  have grow: "list_all (list_all (\<lambda>entry. entry \<noteq> None)) (evs[r := evs ! r @ [Some ev]])"
    if "list_all (list_all (\<lambda>entry. entry \<noteq> None)) evs" "r < length evs"
    for evs :: "EventBlock option list list" and r ev
  proof -
    from that have "list_all (\<lambda>entry. entry \<noteq> None) (evs ! r)"
      using nth_mem by (fastforce simp: list_all_iff)
    then have "list_all (\<lambda>entry. entry \<noteq> None) (evs ! r @ [Some ev])"
      by simp
    with that(1) show ?thesis by (rule list_all_update)
  qed
  show ?thesis
    using assms grow[of "events st"]
    by (auto simp: handleMouseUp_def wellShaped_def noDrag_def Let_def
        split: option.splits bool.splits)
qed

lemma gestures_never_fail:
  "wellShaped st \<Longrightarrow> list_all pointerOnGrid acts
   \<Longrightarrow> \<exists>st'. run st acts = Inr st' \<and> wellShaped st'"
proof (induction acts arbitrary: st)
  case Nil
  then show ?case by simp
next
  case (Cons a acts)
  from Cons.prems have "\<exists>mid. step st a = Inr mid \<and> wellShaped mid"
    using onMouseDownCell_total onMouseEnterCell_total handleMouseUp_total
    by (cases a) auto
  then obtain mid where mid: "step st a = Inr mid" "wellShaped mid" by blast
  from Cons.IH[OF mid(2)] Cons.prems(2) obtain st' where "run mid acts = Inr st'" "wellShaped st'"
    by auto
  with mid show ?case by simp
qed

lemma initialState_wellShaped: "wellShaped initialState"
  by (simp add: wellShaped_def initialState_def noDrag_def list_all_iff)

end
